theory Spec2Isabelle
  imports Complex_Main "HOL-Library.Word" "HOL-Library.Log_Nat"
begin

unbundle bit_operations_syntax

section \<open>Common types\<close>

text \<open>
  Go's \<open>byte\<close> is an 8-bit word and \<open>int16\<close> a 16-bit word read in two's complement
  (\<open>sint\<close>). Go's \<open>int\<close> and \<open>int64\<close> hold byte offsets and lengths; they are modelled as
  \<open>int\<close>, since every value the modelled functions compute is bounded by a slice length
  or compared, never wrapped.

  Go's \<open>float64\<close> is IEEE 754 binary64. The conversions of the sample codec and the
  interpolation kernels are modelled on the type \<open>float64\<close> of the next section:
  round-to-nearest-even arithmetic, infinities and NaN. The model of the SpeedShifter
  computes on \<open>real\<close> instead (see there).

  A panic of the source (explicit \<open>panic\<close>, slice or index out of range, failed type
  assertion) is the left injection of a sum type.
\<close>

type_synonym byte = "8 word"
type_synonym int16 = "16 word"

datatype panic =
    Panic string          \<comment> \<open>an explicit \<open>panic(message)\<close>\<close>
  | IndexOutOfRange
  | SliceOutOfRange
  | TypeAssertion

section \<open>IEEE 754 binary64 (Go's \<open>float64\<close>)\<close>

text \<open>
  A \<open>float64\<close> is a finite number, an infinity or NaN. A finite number is held as
  mantissa and exponent, \<open>Finite m e\<close> standing for \<open>m * 2\<^sup>e\<close>; it is a binary64 number
  when \<open>\<bar>m\<bar> < 2\<^sup>5\<^sup>3\<close> and \<open>-1074 \<le> e \<le> 971\<close> (\<open>is_float64\<close>). The datatype does not enforce
  these bounds, so a statement about every \<open>float64\<close> assumes \<open>is_float64\<close>. Two points
  are abstracted: all NaNs are one value, and the two zeros are one value (they compare
  equal in Go, and the sign of a zero shows only in a division by it or in its bits).
\<close>

datatype float64 = Finite int int | PosInf | NegInf | NaN

fun valof :: "float64 \<Rightarrow> rat" where
  "valof (Finite m e) = of_int m * 2 powi e"
| "valof _ = 0"

fun is_finite :: "float64 \<Rightarrow> bool" where
  "is_finite (Finite m e) = True"
| "is_finite _ = False"

fun is_float64 :: "float64 \<Rightarrow> bool" where
  "is_float64 (Finite m e) = (\<bar>m\<bar> < 2 ^ 53 \<and> - 1074 \<le> e \<and> e \<le> 971)"
| "is_float64 _ = True"

text \<open>Rounding to the nearest integer, a tie going to the even one.\<close>

definition rne :: "rat \<Rightarrow> int" where
  "rne y = (let f = \<lfloor>y\<rfloor>; d = y - of_int f in
            if d < 1 / 2 then f else if 1 / 2 < d then f + 1
            else if even f then f else f + 1)"

text \<open>The binary exponent of a non-zero rational: \<open>2 powi ilog2 x \<le> \<bar>x\<bar> < 2 powi (ilog2 x + 1)\<close>
  (lemma \<open>ilog2_bounds\<close>), computed from the bit lengths of numerator and denominator.\<close>

definition ilog2 :: "rat \<Rightarrow> int" where
  "ilog2 x = (let (a, b) = quotient_of \<bar>x\<bar>; k = bitlen a - bitlen b in
              if 2 powi k \<le> \<bar>x\<bar> then k else k - 1)"

text \<open>
  Rounding of an exact result to binary64, to nearest with ties to even (the only
  rounding mode of Go). The result is a multiple of \<open>2\<^sup>q\<close>, where \<open>q\<close> leaves 53 bits to
  the mantissa and is at least -1074 (gradual underflow); a mantissa that rounds up to
  \<open>2\<^sup>5\<^sup>3\<close> moves to the next exponent; an exponent above 971 overflows to an infinity.
\<close>

definition round64 :: "rat \<Rightarrow> float64" where
  "round64 x =
     (if x = 0 then Finite 0 0
      else
        let q = max (ilog2 x - 52) (- 1074);
            m = rne (x / 2 powi q);
            (m', q') = (if \<bar>m\<bar> = 2 ^ 53 then (m div 2, q + 1) else (m, q))
        in if 971 < q' then (if 0 < x then PosInf else NegInf) else Finite m' q')"

text \<open>
  The arithmetic operators. Each rounds its exact result once; an operand that is NaN,
  \<open>\<infinity> - \<infinity>\<close>, \<open>0 * \<infinity>\<close>, \<open>0 / 0\<close> and \<open>\<infinity> / \<infinity>\<close> give NaN. (Go lets a compiler fuse \<open>x*y + z\<close>
  into one rounding; the model rounds every operation, as the code compiled for amd64
  does.)
\<close>

fun is_neg :: "float64 \<Rightarrow> bool" where
  "is_neg (Finite m e) = (m < 0)"
| "is_neg NegInf = True"
| "is_neg _ = False"

definition is_zero :: "float64 \<Rightarrow> bool" where
  "is_zero v = (is_finite v \<and> valof v = 0)"

fun f64_neg :: "float64 \<Rightarrow> float64" where
  "f64_neg (Finite m e) = Finite (- m) e"
| "f64_neg PosInf = NegInf"
| "f64_neg NegInf = PosInf"
| "f64_neg NaN = NaN"

definition f64_add :: "float64 \<Rightarrow> float64 \<Rightarrow> float64" where
  "f64_add a b =
     (if a = NaN \<or> b = NaN then NaN
      else if is_finite a \<and> is_finite b then round64 (valof a + valof b)
      else if is_finite b then a
      else if is_finite a then b
      else if a = b then a else NaN)"

definition f64_sub :: "float64 \<Rightarrow> float64 \<Rightarrow> float64" where
  "f64_sub a b = f64_add a (f64_neg b)"

definition f64_mul :: "float64 \<Rightarrow> float64 \<Rightarrow> float64" where
  "f64_mul a b =
     (if a = NaN \<or> b = NaN then NaN
      else if is_finite a \<and> is_finite b then round64 (valof a * valof b)
      else if is_zero a \<or> is_zero b then NaN
      else if is_neg a = is_neg b then PosInf else NegInf)"

definition f64_div :: "float64 \<Rightarrow> float64 \<Rightarrow> float64" where
  "f64_div a b =
     (if a = NaN \<or> b = NaN then NaN
      else if is_finite a \<and> is_finite b then
        (if valof b = 0 then
           (if valof a = 0 then NaN else if valof a < 0 then NegInf else PosInf)
         else round64 (valof a / valof b))
      else if is_finite b then (if is_neg a = is_neg b then PosInf else NegInf)
      else if is_finite a then Finite 0 0
      else NaN)"

text \<open>The comparisons \<open><=\<close> and \<open>==\<close>: false as soon as an operand is NaN.\<close>

fun f64_le :: "float64 \<Rightarrow> float64 \<Rightarrow> bool" where
  "f64_le NaN _ = False"
| "f64_le _ NaN = False"
| "f64_le NegInf _ = True"
| "f64_le _ PosInf = True"
| "f64_le PosInf _ = False"
| "f64_le _ NegInf = False"
| "f64_le (Finite m e) (Finite n f) = (valof (Finite m e) \<le> valof (Finite n f))"

definition f64_eq :: "float64 \<Rightarrow> float64 \<Rightarrow> bool" where
  "f64_eq a b = (f64_le a b \<and> f64_le b a)"

text \<open>The operators of the source are written as in the source: \<open>+\<close>, \<open>-\<close>, \<open>*\<close>, \<open>/\<close>, \<open>\<le>\<close> and
  \<open><\<close> on \<open>float64\<close> stand for the functions above (for \<open>>=\<close>, \<open>a \<ge> b\<close> is \<open>b \<le> a\<close>). These are
  notations only: \<open>float64\<close> is no ring and no order (addition is not associative, and
  \<open>\<le>\<close> is not reflexive at NaN).\<close>

instantiation float64 :: "{plus, minus, uminus, times, inverse, ord}"
begin

definition plus_float64 :: "float64 \<Rightarrow> float64 \<Rightarrow> float64" where
  "plus_float64 a b = f64_add a b"

definition minus_float64 :: "float64 \<Rightarrow> float64 \<Rightarrow> float64" where
  "minus_float64 a b = f64_sub a b"

definition uminus_float64 :: "float64 \<Rightarrow> float64" where
  "uminus_float64 a = f64_neg a"

definition times_float64 :: "float64 \<Rightarrow> float64 \<Rightarrow> float64" where
  "times_float64 a b = f64_mul a b"

definition divide_float64 :: "float64 \<Rightarrow> float64 \<Rightarrow> float64" where
  "divide_float64 a b = f64_div a b"

definition inverse_float64 :: "float64 \<Rightarrow> float64" where
  "inverse_float64 a = f64_div (Finite 1 0) a"

definition less_eq_float64 :: "float64 \<Rightarrow> float64 \<Rightarrow> bool" where
  "less_eq_float64 a b = f64_le a b"

definition less_float64 :: "float64 \<Rightarrow> float64 \<Rightarrow> bool" where
  "less_float64 a b = (f64_le a b \<and> \<not> f64_le b a)"

instance ..

end

text \<open>A constant of the source (Go evaluates constant expressions such as \<open>1.0/3.0\<close>
  exactly and rounds once, on conversion to \<open>float64\<close>), and the conversion \<open>float64(i)\<close>
  of an integer.\<close>

definition f64_lit :: "rat \<Rightarrow> float64" where
  "f64_lit c = round64 c"

definition f64_of_int :: "int \<Rightarrow> float64" where
  "f64_of_int i = round64 (of_int i)"

section \<open>Sample codec (utils\_samples.go)\<close>

text \<open>\<open>GetSampleAsI16\<close>: indexes \<open>buffer[1]\<close>, \<open>buffer[0]\<close>, \<open>buffer[3]\<close>, \<open>buffer[2]\<close>;
  any of them out of range panics.\<close>

definition GetSampleAsI16 :: "byte list \<Rightarrow> panic + (int16 \<times> int16)" where
  "GetSampleAsI16 buffer =
     (if length buffer < 4 then Inl IndexOutOfRange
      else
        let left  = (push_bit 8 (ucast (buffer ! 1) :: int16)) OR ucast (buffer ! 0);
            right = (push_bit 8 (ucast (buffer ! 3) :: int16)) OR ucast (buffer ! 2)
        in Inr (left, right))"

text \<open>\<open>StoreL16Sample\<close>: writes \<open>buffer[0..3]\<close> in order. \<open>>>\<close> on an \<open>int16\<close> is the
  arithmetic shift; \<open>byte(_)\<close> keeps the low 8 bits. A buffer shorter than 4 panics at the
  first index out of range (the bytes written before are lost with the panic in the
  model).\<close>

definition StoreL16Sample :: "byte list \<Rightarrow> int16 \<Rightarrow> int16 \<Rightarrow> panic + byte list" where
  "StoreL16Sample buffer left right =
     (if length buffer < 4 then Inl IndexOutOfRange
      else Inr (buffer[0 := ucast left,
                       1 := ucast (signed_drop_bit 8 left),
                       2 := ucast right,
                       3 := ucast (signed_drop_bit 8 right)]))"

text \<open>
  Go's conversion of a float to an integer type discards the fraction (truncation
  towards zero). When the truncated value is not in the range of the integer type, and
  for NaN and the infinities, the conversion succeeds and its result is
  implementation-dependent: the model takes that result from a parameter.
\<close>

definition trunc_toward_zero :: "rat \<Rightarrow> int" where
  "trunc_toward_zero x = (if 0 \<le> x then \<lfloor>x\<rfloor> else \<lceil>x\<rceil>)"

definition f64_trunc :: "float64 \<Rightarrow> int" where
  "f64_trunc v = trunc_toward_zero (valof v)"

definition f64_to_i16 :: "(float64 \<Rightarrow> int16) \<Rightarrow> float64 \<Rightarrow> int16" where
  "f64_to_i16 unrepresentable v =
     (if is_finite v \<and> - 32768 \<le> f64_trunc v \<and> f64_trunc v \<le> 32767
      then word_of_int (f64_trunc v)
      else unrepresentable v)"

definition clipFloatToI16 :: "(float64 \<Rightarrow> int16) \<Rightarrow> float64 \<Rightarrow> int16" where
  "clipFloatToI16 unrepresentable v =
     (if v \<ge> f64_lit 32767 then 32767
      else if v \<le> f64_lit (- 32768) then - 32768
      else f64_to_i16 unrepresentable v)"

definition normFloatToI16 :: "(float64 \<Rightarrow> int16) \<Rightarrow> float64 \<Rightarrow> int16" where
  "normFloatToI16 unrepresentable v =
     (if v \<ge> f64_lit 0 then
        (if v \<ge> f64_lit 1.0 then 32767
         else f64_to_i16 unrepresentable (v * f64_lit 32767.0))
      else
        (if v \<le> f64_lit (- 1.0) then - 32768
         else f64_to_i16 unrepresentable (v * f64_lit 32768.0)))"

definition NormalizeF64 :: "float64 \<Rightarrow> float64" where
  "NormalizeF64 v =
     (if v \<ge> f64_lit 0 then
        (if v \<ge> f64_lit 32767 then f64_lit 1.0 else v / f64_lit 32767.0)
      else
        (if v \<le> f64_lit (- 32768) then f64_lit (- 1.0) else v / f64_lit 32768.0))"

definition GetSampleAsF64 :: "byte list \<Rightarrow> panic + (float64 \<times> float64)" where
  "GetSampleAsF64 buffer =
     (case GetSampleAsI16 buffer of
        Inl e \<Rightarrow> Inl e
      | Inr (left, right) \<Rightarrow>
          Inr (NormalizeF64 (f64_of_int (sint left)), NormalizeF64 (f64_of_int (sint right))))"

definition StoreF64SampleAsL16 ::
    "(float64 \<Rightarrow> int16) \<Rightarrow> byte list \<Rightarrow> float64 \<Rightarrow> float64 \<Rightarrow> panic + byte list" where
  "StoreF64SampleAsL16 unrepresentable buffer left right =
     StoreL16Sample buffer (clipFloatToI16 unrepresentable left)
                           (clipFloatToI16 unrepresentable right)"

definition StoreNormF64SampleAsL16 ::
    "(float64 \<Rightarrow> int16) \<Rightarrow> byte list \<Rightarrow> float64 \<Rightarrow> float64 \<Rightarrow> panic + byte list" where
  "StoreNormF64SampleAsL16 unrepresentable buffer left right =
     StoreL16Sample buffer (normFloatToI16 unrepresentable left)
                           (normFloatToI16 unrepresentable right)"

subsection \<open>The codec on real numbers\<close>

text \<open>
  The model of the SpeedShifter computes on real numbers (see there). The functions of
  the codec it calls are these counterparts on \<open>real\<close>, named with the suffix \<open>_real\<close>:
  the same comparisons and conversions, without rounding, NaN or infinities.
\<close>

definition go_trunc :: "real \<Rightarrow> int" where
  "go_trunc v = (if v \<ge> 0 then \<lfloor>v\<rfloor> else \<lceil>v\<rceil>)"

text \<open>\<open>int16(v)\<close> for a real \<open>v\<close>: the truncation, as a 16-bit word. (Outside the
  \<open>int16\<close> range this model wraps; \<open>clipFloatToI16_real\<close> never converts such a value.)\<close>

definition real_to_i16 :: "real \<Rightarrow> int16" where
  "real_to_i16 v = word_of_int (go_trunc v)"

definition clipFloatToI16_real :: "real \<Rightarrow> int16" where
  "clipFloatToI16_real v =
     (if v \<ge> 32767 then 32767
      else if v \<le> -32768 then -32768
      else real_to_i16 v)"

definition NormalizeF64_real :: "real \<Rightarrow> real" where
  "NormalizeF64_real v =
     (if v \<ge> 0 then
        (if v \<ge> 32767 then 1.0 else v / 32767.0)
      else
        (if v \<le> -32768 then -1.0 else v / 32768.0))"

definition GetSampleAsF64_real :: "byte list \<Rightarrow> panic + (real \<times> real)" where
  "GetSampleAsF64_real buffer =
     (case GetSampleAsI16 buffer of
        Inl e \<Rightarrow> Inl e
      | Inr (left, right) \<Rightarrow>
          Inr (NormalizeF64_real (real_of_int (sint left)),
               NormalizeF64_real (real_of_int (sint right))))"

definition StoreF64SampleAsL16_real :: "byte list \<Rightarrow> real \<Rightarrow> real \<Rightarrow> panic + byte list" where
  "StoreF64SampleAsL16_real buffer left right =
     StoreL16Sample buffer (clipFloatToI16_real left) (clipFloatToI16_real right)"

section \<open>Interpolators (interpolation.go)\<close>

text \<open>An \<open>InterpolatorFunc\<close> takes the window and the target position. The fixed-size
  kernels index the window directly, so a window that is too short panics. The
  constants are those of the source, each rounded once to \<open>float64\<close>.\<close>

type_synonym InterpolatorFunc = "float64 list \<Rightarrow> float64 \<Rightarrow> panic + float64"

text \<open>The inner loop of \<open>InterpLagrangeN\<close>: the basis polynomial of sample \<open>j\<close>, over
  \<open>m = 0, ..., len(samples) - 1\<close>, skipping \<open>m = j\<close>.\<close>

definition lagrange_basis :: "nat \<Rightarrow> nat \<Rightarrow> float64 \<Rightarrow> float64" where
  "lagrange_basis n j targetPosition =
     fold (\<lambda>m l. if j = m then l
                  else l * ((targetPosition - f64_of_int (int m)) / f64_of_int (int j - int m)))
          [0..<n] (f64_lit 1.0)"

definition InterpLagrangeN :: InterpolatorFunc where
  "InterpLagrangeN samples targetPosition =
     Inr (fold (\<lambda>j output. output + samples ! j * lagrange_basis (length samples) j targetPosition)
               [0..<length samples] (f64_lit 0.0))"

definition InterpLagrange4Pt3Ord :: InterpolatorFunc where
  "InterpLagrange4Pt3Ord samples x =
     (if length samples < 4 then Inl IndexOutOfRange
      else
        let c0 = samples ! 1;
            c1 = samples ! 2 - f64_lit (1.0 / 3.0) * samples ! 0 - f64_lit 0.5 * samples ! 1
                   - f64_lit (1.0 / 6.0) * samples ! 3;
            c2 = f64_lit 0.5 * (samples ! 0 + samples ! 2) - samples ! 1;
            c3 = f64_lit (1.0 / 6.0) * (samples ! 3 - samples ! 0)
                   + f64_lit 0.5 * (samples ! 1 - samples ! 2);
            x1 = x - f64_lit 1.0
        in Inr (((c3 * x1 + c2) * x1 + c1) * x1 + c0))"

definition InterpLagrange6Pt5Ord :: InterpolatorFunc where
  "InterpLagrange6Pt5Ord samples x =
     (if length samples < 6 then Inl IndexOutOfRange
      else
        let sam_1_3_pre = samples ! 1 + samples ! 3;
            sam_0_4_pre = f64_lit (1 / 24.0) * (samples ! 0 + samples ! 4);
            c0 = samples ! 2;
            c1 = f64_lit (1.0 / 20.0) * samples ! 0 - f64_lit 0.5 * samples ! 1
                   - f64_lit (1.0 / 3.0) * samples ! 2 + samples ! 3 - f64_lit 0.25 * samples ! 4
                   + f64_lit (1.0 / 30.0) * samples ! 5;
            c2 = f64_lit (2.0 / 3.0) * sam_1_3_pre - f64_lit (5.0 / 4.0) * samples ! 2 - sam_0_4_pre;
            c3 = f64_lit (5.0 / 12.0) * samples ! 2 - f64_lit (7.0 / 12.0) * samples ! 3
                   + f64_lit (7.0 / 24.0) * samples ! 4
                   - f64_lit (1.0 / 24.0) * (samples ! 0 + samples ! 1 + samples ! 5);
            c4 = f64_lit 0.25 * samples ! 2 - f64_lit (1.0 / 6.0) * sam_1_3_pre + sam_0_4_pre;
            c5 = f64_lit (1.0 / 120.0) * (samples ! 5 - samples ! 0)
                   + f64_lit (1 / 24.0) * (samples ! 1 - samples ! 4)
                   + f64_lit (1.0 / 12.0) * (samples ! 3 - samples ! 2);
            x2 = x - f64_lit 2.0
        in Inr (((((c5 * x2 + c4) * x2 + c3) * x2 + c2) * x2 + c1) * x2 + c0))"

definition InterpHermite4Pt3Ord :: InterpolatorFunc where
  "InterpHermite4Pt3Ord samples x =
     (if length samples < 4 then Inl IndexOutOfRange
      else
        let c0 = samples ! 1;
            c1 = f64_lit 0.5 * (samples ! 2 - samples ! 0);
            c2 = samples ! 0 - f64_lit 2.5 * samples ! 1 + f64_lit 2.0 * samples ! 2
                   - f64_lit 0.5 * samples ! 3;
            c3 = f64_lit 0.5 * (samples ! 3 - samples ! 0)
                   + f64_lit 1.5 * (samples ! 1 - samples ! 2);
            x1 = x - f64_lit 1.0
        in Inr (((c3 * x1 + c2) * x1 + c1) * x1 + c0))"

definition InterpHermite6Pt3Ord :: InterpolatorFunc where
  "InterpHermite6Pt3Ord samples x =
     (if length samples < 6 then Inl IndexOutOfRange
      else
        let c0 = samples ! 2;
            c1 = f64_lit (1.0 / 12.0) * (samples ! 0 - samples ! 4)
                   + f64_lit (2.0 / 3.0) * (samples ! 3 - samples ! 1);
            c2 = f64_lit 1.25 * samples ! 1 - f64_lit (7.0 / 3.0) * samples ! 2
                   + f64_lit (5.0 / 3.0) * samples ! 3 - f64_lit 0.5 * samples ! 4
                   + f64_lit (1.0 / 12.0) * samples ! 5 - f64_lit (1.0 / 6.0) * samples ! 0;
            c3 = f64_lit (1.0 / 12.0) * (samples ! 0 - samples ! 5)
                   + f64_lit (7.0 / 12.0) * (samples ! 4 - samples ! 1)
                   + f64_lit (4.0 / 3.0) * (samples ! 2 - samples ! 3);
            x2 = x - f64_lit 2.0
        in Inr (((c3 * x2 + c2) * x2 + c1) * x2 + c0))"

section \<open>The byte-stream source\<close>

text \<open>
  Modelled from the spec: the byte-stream source (\<open>io.Reader\<close>, \<open>io.ReadSeeker\<close>) that the
  Looper and the SpeedShifter wrap is an interface; its implementations are not part of
  the repository. The model is an in-memory reader in the manner of \<open>bytes.Reader\<close>
  (which \<open>Looper.Length\<close> names): the data, the current offset, and, for the spec's
  "best-effort partial read semantics (may return \<open>n < len(buf)\<close> without error)", a
  schedule \<open>slimits\<close> of upper bounds for the next reads. Each read that is not at the end
  of the data consumes one entry of the schedule; with the schedule empty a read delivers
  all it can.
\<close>

datatype ioerr = EOF | NegativePosition | InvalidWhence

record stream =
  sdata :: "byte list"
  soff :: nat
  slimits :: "nat list"

text \<open>\<open>read(buf)\<close> with \<open>len(buf) = k\<close>: the bytes delivered, the error, the new state.\<close>

definition stream_read :: "stream \<Rightarrow> nat \<Rightarrow> byte list \<times> ioerr option \<times> stream" where
  "stream_read st k =
     (if soff st \<ge> length (sdata st) then ([], Some EOF, st)
      else
        let avail = min k (length (sdata st) - soff st);
            n = (case slimits st of [] \<Rightarrow> avail | c # _ \<Rightarrow> min avail c)
        in (take n (drop (soff st) (sdata st)), None,
            st\<lparr>soff := soff st + n, slimits := tl (slimits st)\<rparr>))"

definition SeekStart :: int where "SeekStart = 0"
definition SeekCurrent :: int where "SeekCurrent = 1"
definition SeekEnd :: int where "SeekEnd = 2"

text \<open>\<open>seek(offset, whence)\<close>: the new position (0 on error), the error, the new state.\<close>

definition stream_seek :: "stream \<Rightarrow> int \<Rightarrow> int \<Rightarrow> int \<times> ioerr option \<times> stream" where
  "stream_seek st offset whence =
     (if whence \<noteq> SeekStart \<and> whence \<noteq> SeekCurrent \<and> whence \<noteq> SeekEnd
      then (0, Some InvalidWhence, st)
      else
        let abs = (if whence = SeekStart then offset
                   else if whence = SeekCurrent then int (soff st) + offset
                   else int (length (sdata st)) + offset)
        in if abs < 0 then (0, Some NegativePosition, st)
           else (abs, None, st\<lparr>soff := nat abs\<rparr>))"

section \<open>Looper (looper.go)\<close>

text \<open>The mutex is held for the whole of every method, so each method is one atomic
  step on the record.\<close>

record Looper =
  stream :: stream
  position :: int
  loopStart :: int
  activeLoopEnd :: int
  loopEnd :: int

text \<open>\<open>assertLoopValuesValidity\<close>: the panic raised, if any, in the order of the checks.\<close>

definition assertLoopValuesValidity :: "int \<Rightarrow> int \<Rightarrow> panic option" where
  "assertLoopValuesValidity loopStart' loopEnd' =
     (if loopStart' AND 3 \<noteq> 0 then Some (Panic ''loopStart must be multiple of 4'')
      else if loopEnd' AND 3 \<noteq> 0 then Some (Panic ''loopEnd must be multiple of 4'')
      else if loopStart' \<ge> loopEnd' then
        Some (Panic ''loopStart must be strictly smaller than loopEnd'')
      else if loopStart' < 0 then Some (Panic ''loopStart must be >= 0'')
      else None)"

definition NewLooper :: "stream \<Rightarrow> int \<Rightarrow> int \<Rightarrow> panic + Looper" where
  "NewLooper st loopStart' loopEnd' =
     (case assertLoopValuesValidity loopStart' loopEnd' of
        Some p \<Rightarrow> Inl p
      | None \<Rightarrow> Inr \<lparr>stream = st, position = 0, loopStart = loopStart',
                      activeLoopEnd = loopEnd', loopEnd = loopEnd'\<rparr>)"

definition AdjustLoop :: "Looper \<Rightarrow> int \<Rightarrow> int \<Rightarrow> panic + Looper" where
  "AdjustLoop self loopStart' loopEnd' =
     (case assertLoopValuesValidity loopStart' loopEnd' of
        Some p \<Rightarrow> Inl p
      | None \<Rightarrow>
          let self1 = self\<lparr>loopStart := loopStart', loopEnd := loopEnd'\<rparr>
          in Inr (if loopEnd' \<ge> position self then self1\<lparr>activeLoopEnd := loopEnd'\<rparr>
                  else self1))"

text \<open>The retry loop of \<open>readAll\<close> on the stream, for a buffer of \<open>k\<close> bytes: the bytes
  written to the front of the buffer (\<open>bytesRead\<close> is their number), the error and the
  new stream. Every read that does not end the loop either takes an entry off the
  schedule or delivers a byte.\<close>

function readAll_loop :: "stream \<Rightarrow> nat \<Rightarrow> byte list \<times> ioerr option \<times> stream" where
  "readAll_loop st k =
     (case stream_read st k of
        (bs, err, st') \<Rightarrow>
          if length bs = k \<or> err \<noteq> None then (bs, err, st')
          else (case readAll_loop st' (k - length bs) of
                  (bs', err', st'') \<Rightarrow> (bs @ bs', err', st'')))"
  by pat_completeness auto
termination
  by (relation "measure (\<lambda>(st, k). length (slimits st) + k)")
     (auto simp: stream_read_def Let_def min_def split: if_splits list.splits)

declare readAll_loop.simps [simp del]

text \<open>\<open>Looper.readAll\<close>: the deferred function adds \<open>bytesRead\<close> to the position.\<close>

definition readAll :: "Looper \<Rightarrow> nat \<Rightarrow> byte list \<times> ioerr option \<times> Looper" where
  "readAll self k =
     (case readAll_loop (stream self) k of
        (bs, err, st') \<Rightarrow>
          (bs, err, self\<lparr>stream := st', position := position self + int (length bs)\<rparr>))"

text \<open>
  The loop of \<open>Looper.Read\<close>. \<open>k\<close> is the length of what is left of the buffer and \<open>out\<close>
  the bytes written so far, which fill the front of the caller's buffer in order;
  \<open>bytesRead\<close> is \<open>length out\<close>. The loop need not end (a looper whose \<open>loopStart\<close> is not
  below \<open>loopEnd\<close> and whose position is past the active end seeks forever), so its
  result is an option: \<open>None\<close> is the loop that never returns.
\<close>

partial_function (option) Read_loop ::
    "Looper \<Rightarrow> nat \<Rightarrow> byte list \<Rightarrow> (byte list \<times> ioerr option \<times> Looper) option" where
  "Read_loop self k out =
     (if k > 0 then
        let untilNextLoop = (if activeLoopEnd self - position self < 0 then 0
                             else activeLoopEnd self - position self)
        in if int k \<le> untilNextLoop then
             (case readAll self k of (bs, err, self') \<Rightarrow> Some (out @ bs, err, self'))
           else
             (case (if untilNextLoop > 0 then readAll self (nat untilNextLoop)
                    else ([], None, self)) of
                (bs, err, self1) \<Rightarrow>
                  if err \<noteq> None then Some (out @ bs, err, self1)
                  else
                    let self2 = self1\<lparr>activeLoopEnd := loopEnd self1\<rparr>
                    in (case stream_seek (stream self2) (loopStart self2) SeekStart of
                          (pos, serr, st') \<Rightarrow>
                            let self3 = self2\<lparr>position := pos, stream := st'\<rparr>
                            in if serr \<noteq> None then Some (out @ bs, serr, self3)
                               else Read_loop self3 (k - nat untilNextLoop) (out @ bs)))
      else Some (out, None, self))"

declare Read_loop.simps [code]

text \<open>\<open>Looper.Read(buffer)\<close>: the buffer after the call, \<open>bytesRead\<close>, the error and the
  new looper.\<close>

definition Looper_Read :: "Looper \<Rightarrow> byte list \<Rightarrow> (byte list \<times> int \<times> ioerr option \<times> Looper) option" where
  "Looper_Read self buffer =
     (case Read_loop self (length buffer) [] of
        None \<Rightarrow> None
      | Some (out, err, self') \<Rightarrow>
          Some (out @ drop (length out) buffer, int (length out), err, self'))"

text \<open>\<open>Looper.Seek\<close>.\<close>

definition Looper_Seek :: "Looper \<Rightarrow> int \<Rightarrow> int \<Rightarrow> int \<times> ioerr option \<times> Looper" where
  "Looper_Seek self offset whence =
     (case stream_seek (stream self) offset whence of
        (n, err, st') \<Rightarrow>
          let self1 = self\<lparr>stream := st', position := n\<rparr>
          in (n, err, if position self1 \<le> loopEnd self1
                      then self1\<lparr>activeLoopEnd := loopEnd self1\<rparr> else self1))"

subsection \<open>Specification of a looped read\<close>

text \<open>
  What a read of \<open>k\<close> bytes is expected to deliver, stated on the data and not on the
  code: byte \<open>i\<close> is the byte at \<open>pos + i\<close> while the traversal in progress lasts (\<open>until\<close>
  bytes), and from there on the loop \<open>[ls, ls + looplen)\<close> again and again.
  \<open>looper_ok\<close> describes a looper at rest on an in-memory stream: the position is the
  stream's offset, the loop bounds are those the constructor accepts, and both loop ends
  lie within the data.
\<close>

definition looped_bytes :: "byte list \<Rightarrow> nat \<Rightarrow> nat \<Rightarrow> nat \<Rightarrow> nat \<Rightarrow> nat \<Rightarrow> byte list" where
  "looped_bytes data pos until ls looplen k =
     map (\<lambda>i. if i < until then data ! (pos + i) else data ! (ls + (i - until) mod looplen)) [0..<k]"

definition looper_ok :: "Looper \<Rightarrow> bool" where
  "looper_ok self \<longleftrightarrow>
     position self = int (soff (stream self))
     \<and> 0 \<le> loopStart self \<and> loopStart self < loopEnd self
     \<and> loopEnd self \<le> int (length (sdata (stream self)))
     \<and> activeLoopEnd self \<le> int (length (sdata (stream self)))"

definition until_of :: "Looper \<Rightarrow> nat" where
  "until_of self = nat (activeLoopEnd self - position self)"


section \<open>Go slices\<close>

text \<open>\<open>s[lo:hi]\<close> panics unless \<open>0 \<le> lo \<le> hi \<le> cap(s)\<close>. The model takes the length for
  the capacity. (The left window's buffer is the front half of a longer array, so in Go
  its capacity exceeds its length; the two differ only for an end index beyond the
  length, which no method of the window produces.) \<open>copy(dst, src)\<close> moves
  \<open>min(len(dst), len(src))\<close> elements to the front of \<open>dst\<close>, also when the two overlap.
  \<open>a / b\<close> on integers truncates towards zero.\<close>

definition slice :: "'a list \<Rightarrow> int \<Rightarrow> int \<Rightarrow> panic + 'a list" where
  "slice xs lo hi =
     (if 0 \<le> lo \<and> lo \<le> hi \<and> hi \<le> int (length xs)
      then Inr (take (nat hi - nat lo) (drop (nat lo) xs))
      else Inl SliceOutOfRange)"

definition go_copy :: "'a list \<Rightarrow> 'a list \<Rightarrow> 'a list" where
  "go_copy dst src =
     take (min (length dst) (length src)) src @ drop (min (length dst) (length src)) dst"

definition go_quot :: "int \<Rightarrow> int \<Rightarrow> int" where
  "go_quot a b = sgn a * sgn b * (\<bar>a\<bar> div \<bar>b\<bar>)"

section \<open>circularWindow (speed\_shifter.go)\<close>

text \<open>The field \<open>buffer\<close> of the source is \<open>wbuffer\<close> here. The window stores and copies
  its values and computes nothing on them; they are the samples of the shifter, real
  numbers in its model.\<close>

record circularWindow =
  winSize :: int
  wbuffer :: "real list"
  startIndex :: int
  endIndex :: int

definition Reset :: "circularWindow \<Rightarrow> circularWindow" where
  "Reset self = self\<lparr>startIndex := 0, endIndex := 0\<rparr>"

definition Get :: "circularWindow \<Rightarrow> panic + real list" where
  "Get self = slice (wbuffer self) (startIndex self) (endIndex self)"

definition Push :: "circularWindow \<Rightarrow> real \<Rightarrow> panic + circularWindow" where
  "Push self v =
     (if endIndex self < int (length (wbuffer self)) then
        (if endIndex self < 0 then Inl IndexOutOfRange
         else
           let self1 = self\<lparr>wbuffer := (wbuffer self)[nat (endIndex self) := v]\<rparr>;
               self2 = (if winSize self1 = endIndex self1 - startIndex self1
                        then self1\<lparr>startIndex := startIndex self1 + 1\<rparr> else self1)
           in Inr (self2\<lparr>endIndex := endIndex self2 + 1\<rparr>))
      else if winSize self = endIndex self - startIndex self then
        (case slice (wbuffer self) (startIndex self + 1) (endIndex self) of
           Inl p \<Rightarrow> Inl p
         | Inr src \<Rightarrow>
             let b1 = go_copy (wbuffer self) src
             in if winSize self - 1 < 0 \<or> winSize self - 1 \<ge> int (length b1)
                then Inl IndexOutOfRange
                else Inr (self\<lparr>wbuffer := b1[nat (winSize self - 1) := v],
                               startIndex := 0, endIndex := winSize self\<rparr>))
      else
        (case slice (wbuffer self) (startIndex self) (endIndex self) of
           Inl p \<Rightarrow> Inl p
         | Inr src \<Rightarrow>
             let b1 = go_copy (wbuffer self) src;
                 newIndex = endIndex self - startIndex self
             in if newIndex < 0 \<or> newIndex \<ge> int (length b1)
                then Inl IndexOutOfRange
                else Inr (self\<lparr>wbuffer := b1[nat newIndex := v],
                               startIndex := 0, endIndex := newIndex + 1\<rparr>)))"

text \<open>A sequence of pushes, stopping at the first panic.\<close>

fun push_all :: "circularWindow \<Rightarrow> real list \<Rightarrow> panic + circularWindow" where
  "push_all self [] = Inr self"
| "push_all self (v # vs) =
     (case Push self v of Inl p \<Rightarrow> Inl p | Inr self' \<Rightarrow> push_all self' vs)"

text \<open>
  For stating the window's properties: \<open>window_ok\<close> is a window as the constructor and
  the methods leave it (capacity at least one and at most the buffer, indices within the
  buffer, at most \<open>winSize\<close> values between them), and \<open>contents\<close> is the run of the
  buffer between the two indices.
\<close>

definition window_ok :: "circularWindow \<Rightarrow> bool" where
  "window_ok self \<longleftrightarrow>
     1 \<le> winSize self \<and> winSize self \<le> int (length (wbuffer self))
     \<and> 0 \<le> startIndex self \<and> startIndex self \<le> endIndex self
     \<and> endIndex self \<le> int (length (wbuffer self))
     \<and> endIndex self - startIndex self \<le> winSize self"

definition contents :: "circularWindow \<Rightarrow> real list" where
  "contents self = take (nat (endIndex self) - nat (startIndex self)) (drop (nat (startIndex self)) (wbuffer self))"


section \<open>SpeedShifter (speed\_shifter.go)\<close>

text \<open>
  The \<open>float64\<close> quantities of the shifter (\<open>speed\<close>, \<open>fracPos\<close>, the samples held in the
  two windows, the argument and the result of the interpolator) are real numbers in this
  model, and the interpolator is any function on them. What is proved of the shifter
  concerns byte counts, the contents of the windows and the control flow of \<open>Read\<close> and
  \<open>Seek\<close>; the numeric value of an emitted sample is not part of it.

  The source of a SpeedShifter is an \<open>io.Reader\<close>; \<open>Seek\<close> asserts that it is also an
  \<open>io.Seeker\<close> and panics otherwise. The interface value is a stream together with what
  it implements.
\<close>

datatype io_reader = OnlyReader stream | AlsoSeeker stream

definition reader_read :: "io_reader \<Rightarrow> nat \<Rightarrow> byte list \<times> ioerr option \<times> io_reader" where
  "reader_read r k =
     (case r of
        OnlyReader st \<Rightarrow> (case stream_read st k of (bs, err, st') \<Rightarrow> (bs, err, OnlyReader st'))
      | AlsoSeeker st \<Rightarrow> (case stream_read st k of (bs, err, st') \<Rightarrow> (bs, err, AlsoSeeker st')))"

text \<open>What is left to read from the source, for the termination of \<open>Read\<close>: the entries
  of the schedule plus the bytes behind the offset.\<close>

definition reader_left :: "io_reader \<Rightarrow> nat" where
  "reader_left r =
     (case r of
        OnlyReader st \<Rightarrow> length (slimits st) + (length (sdata st) - soff st)
      | AlsoSeeker st \<Rightarrow> length (slimits st) + (length (sdata st) - soff st))"

record SpeedShifter =
  source :: io_reader
  speed :: real
  windowSize :: int
  interpolator :: "real list \<Rightarrow> real \<Rightarrow> panic + real"
  fracPos :: real
  leftoverBytes :: int
  lookaheadBytes :: int
  leftWindow :: circularWindow
  rightWindow :: circularWindow
  auxReadBuffer :: "byte list"

text \<open>Both channels take a value each: \<open>leftWindow.Push(l); rightWindow.Push(r)\<close>.\<close>

definition push_both :: "SpeedShifter \<Rightarrow> real \<Rightarrow> real \<Rightarrow> panic + SpeedShifter" where
  "push_both self l r =
     (case Push (leftWindow self) l of
        Inl p \<Rightarrow> Inl p
      | Inr lw \<Rightarrow>
          (case Push (rightWindow self) r of
             Inl p \<Rightarrow> Inl p
           | Inr rw \<Rightarrow> Inr (self\<lparr>leftWindow := lw, rightWindow := rw\<rparr>)))"

text \<open>The loop \<open>for i := 0; i < windowSize/2 - 1; i++\<close> of \<open>internalReset\<close>, by the number
  of iterations left.\<close>

fun push_zeros :: "nat \<Rightarrow> SpeedShifter \<Rightarrow> panic + SpeedShifter" where
  "push_zeros 0 self = Inr self"
| "push_zeros (Suc n) self =
     (case push_both self 0 0 of Inl p \<Rightarrow> Inl p | Inr self' \<Rightarrow> push_zeros n self')"

definition internalReset :: "SpeedShifter \<Rightarrow> panic + SpeedShifter" where
  "internalReset self =
     (let self1 = self\<lparr>leftoverBytes := 0, lookaheadBytes := 0,
                       leftWindow := Reset (leftWindow self),
                       rightWindow := Reset (rightWindow self)\<rparr>
      in case push_zeros (nat (go_quot (windowSize self1) 2 - 1)) self1 of
           Inl p \<Rightarrow> Inl p
         | Inr self2 \<Rightarrow>
             (case reader_read (source self2) 4 of
                (bs, err, src') \<Rightarrow>
                  let self3 = self2\<lparr>source := src'\<rparr>
                  in if length bs = 4 then
                       (case GetSampleAsF64_real bs of
                          Inl p \<Rightarrow> Inl p
                        | Inr (left, right) \<Rightarrow> push_both self3 left right)
                     else push_both self3 0 0))"

definition NewSpeedShifter ::
    "io_reader \<Rightarrow> real \<Rightarrow> int \<Rightarrow> (real list \<Rightarrow> real \<Rightarrow> panic + real)
       \<Rightarrow> panic + SpeedShifter" where
  "NewSpeedShifter source' speed' windowSize' interpolator' =
     (if windowSize' < 2 then Inl (Panic ''NewSpeedShifter windowSize must be at least 2'')
      else if windowSize' mod 2 \<noteq> 0 then
        Inl (Panic ''NewSpeedShifter windowSize must be multiple of 2 (may unrestrict in the future)'')
      else
        let bufferSize = windowSize' * 8
        in internalReset
             \<lparr>source = source', speed = speed', windowSize = windowSize',
              interpolator = interpolator', fracPos = 0, leftoverBytes = 0, lookaheadBytes = 0,
              leftWindow = \<lparr>winSize = windowSize', wbuffer = replicate (nat bufferSize) 0,
                            startIndex = 0, endIndex = 0\<rparr>,
              rightWindow = \<lparr>winSize = windowSize', wbuffer = replicate (nat bufferSize) 0,
                             startIndex = 0, endIndex = 0\<rparr>,
              auxReadBuffer = []\<rparr>)"

text \<open>\<open>SpeedShifter.Seek\<close>: the position, the error and the new shifter.\<close>

definition SpeedShifter_Seek ::
    "SpeedShifter \<Rightarrow> int \<Rightarrow> int \<Rightarrow> panic + (int \<times> ioerr option \<times> SpeedShifter)" where
  "SpeedShifter_Seek self offset whence =
     (if whence = SeekCurrent then
        (if offset = 0 then Inr (0, None, self)
         else Inl (Panic ''can't use relative seeks on a SpeedShifter (due to lookaheads)''))
      else
        (case source self of
           OnlyReader _ \<Rightarrow> Inl TypeAssertion
         | AlsoSeeker st \<Rightarrow>
             (case stream_seek st offset whence of
                (pos, err, st') \<Rightarrow>
                  (case internalReset (self\<lparr>source := AlsoSeeker st'\<rparr>) of
                     Inl p \<Rightarrow> Inl p
                   | Inr self' \<Rightarrow> Inr (pos, err, self')))))"

text \<open>The loop "ensure lookahead is properly set" of \<open>singleRead\<close>, on what is left of
  the read buffer. The flag tells whether the loop ran out of bytes, where \<open>singleRead\<close>
  returns early.\<close>

function lookahead_loop ::
    "SpeedShifter \<Rightarrow> byte list \<Rightarrow> panic + (bool \<times> SpeedShifter \<times> byte list)" where
  "lookahead_loop self readBuffer =
     (if lookaheadBytes self < windowSize self * 2 then
        (if length readBuffer < 4 then Inr (True, self, readBuffer)
         else
           (case GetSampleAsI16 readBuffer of
              Inl p \<Rightarrow> Inl p
            | Inr (left, right) \<Rightarrow>
                (case push_both self (real_of_int (sint left)) (real_of_int (sint right)) of
                   Inl p \<Rightarrow> Inl p
                 | Inr self' \<Rightarrow>
                     lookahead_loop (self'\<lparr>lookaheadBytes := lookaheadBytes self' + 4\<rparr>)
                       (drop 4 readBuffer))))
      else Inr (False, self, readBuffer))"
  by pat_completeness auto
termination
  by (relation "measure (\<lambda>(self, readBuffer). length readBuffer)") auto

declare lookahead_loop.simps [simp del]

text \<open>The loop "advance position".\<close>

function advance_loop :: "SpeedShifter \<Rightarrow> byte list \<Rightarrow> panic + (SpeedShifter \<times> byte list)" where
  "advance_loop self readBuffer =
     (if fracPos self \<ge> 1.0 \<and> length readBuffer \<ge> 4 then
        (case GetSampleAsI16 readBuffer of
           Inl p \<Rightarrow> Inl p
         | Inr (left, right) \<Rightarrow>
             (case push_both self (real_of_int (sint left)) (real_of_int (sint right)) of
                Inl p \<Rightarrow> Inl p
              | Inr self' \<Rightarrow>
                  advance_loop (self'\<lparr>fracPos := fracPos self' - 1.0\<rparr>) (drop 4 readBuffer)))
      else Inr (self, readBuffer))"
  by pat_completeness auto
termination
  by (relation "measure (\<lambda>(self, readBuffer). length readBuffer)") auto

declare advance_loop.simps [simp del]

text \<open>The step "add sample": interpolate both channels at \<open>interpPosBase + fracPos\<close>,
  store the sample at \<open>buffer[bytesServed:]\<close>, advance \<open>bytesServed\<close> and \<open>fracPos\<close>.\<close>

definition add_sample ::
    "SpeedShifter \<Rightarrow> byte list \<Rightarrow> int \<Rightarrow> panic + (SpeedShifter \<times> byte list \<times> int)" where
  "add_sample self dst bytesServed =
     (let interpPosBase = real_of_int (go_quot (windowSize self) 2 - 1)
      in case Get (leftWindow self) of
           Inl p \<Rightarrow> Inl p
         | Inr lwin \<Rightarrow>
        (case interpolator self lwin (interpPosBase + fracPos self) of
           Inl p \<Rightarrow> Inl p
         | Inr left \<Rightarrow>
        (case Get (rightWindow self) of
           Inl p \<Rightarrow> Inl p
         | Inr rwin \<Rightarrow>
        (case interpolator self rwin (interpPosBase + fracPos self) of
           Inl p \<Rightarrow> Inl p
         | Inr right \<Rightarrow>
        (case slice dst bytesServed (int (length dst)) of
           Inl p \<Rightarrow> Inl p
         | Inr tail \<Rightarrow>
        (case StoreF64SampleAsL16_real tail left right of
           Inl p \<Rightarrow> Inl p
         | Inr tail' \<Rightarrow>
             Inr (self\<lparr>fracPos := fracPos self + speed self\<rparr>,
                  take (nat bytesServed) dst @ tail', bytesServed + 4)))))))"

text \<open>The loop "process the bytes". Every iteration either adds a sample or, with
  \<open>fracPos \<ge> 1\<close>, takes a sample off the read buffer.\<close>

function process_loop ::
    "SpeedShifter \<Rightarrow> byte list \<Rightarrow> byte list \<Rightarrow> int
       \<Rightarrow> panic + (SpeedShifter \<times> byte list \<times> byte list \<times> int)" where
  "process_loop self readBuffer dst bytesServed =
     (if length readBuffer \<ge> 4 \<and> bytesServed < int (length dst) then
        (case (if fracPos self < 1.0 then add_sample self dst bytesServed
               else Inr (self, dst, bytesServed)) of
           Inl p \<Rightarrow> Inl p
         | Inr (self1, dst1, bytesServed1) \<Rightarrow>
             (case advance_loop self1 readBuffer of
                Inl p \<Rightarrow> Inl p
              | Inr (self2, readBuffer2) \<Rightarrow> process_loop self2 readBuffer2 dst1 bytesServed1))
      else Inr (self, readBuffer, dst, bytesServed))"
  by pat_completeness auto

termination
proof (relation "measure (\<lambda>(self, readBuffer, dst, bytesServed).
                   length readBuffer + nat (int (length dst) - bytesServed))")
  show "wf (measure (\<lambda>(self, readBuffer, dst, bytesServed).
                   length readBuffer + nat (int (length dst) - bytesServed)))"
    by simp
next
  fix self :: SpeedShifter and readBuffer dst :: "byte list" and bytesServed :: int
    and x2 self1 y dst1 bytesServed1 x2a self2 readBuffer2
  assume c: "4 \<le> length readBuffer \<and> bytesServed < int (length dst)"
    and a: "(if fracPos self < 1.0 then add_sample self dst bytesServed
             else Inr (self, dst, bytesServed)) = Inr x2"
      "(self1, y) = x2" "(dst1, bytesServed1) = y"
    and b: "advance_loop self1 readBuffer = Inr x2a" "(self2, readBuffer2) = x2a"
  have adv: "length rb' \<le> length rb \<and> (fracPos s \<ge> 1 \<and> length rb \<ge> 4 \<longrightarrow> length rb' < length rb)"
    if "advance_loop s rb = Inr (s', rb')" for s rb s' rb'
    using that
  proof (induction s rb arbitrary: s' rb' rule: advance_loop.induct)
    case (1 s rb)
    show ?case
    proof (cases "fracPos s \<ge> 1.0 \<and> length rb \<ge> 4")
      case True
      then obtain left right sp where g: "GetSampleAsI16 rb = Inr (left, right)"
        and p: "push_both s (real_of_int (sint left)) (real_of_int (sint right)) = Inr sp"
        and r: "advance_loop (sp\<lparr>fracPos := fracPos sp - 1.0\<rparr>) (drop 4 rb) = Inr (s', rb')"
        using "1.prems" by (subst (asm) advance_loop.simps) (auto split: sum.splits prod.splits)
      have "length rb' \<le> length (drop 4 rb)"
        using "1.IH" [OF True g refl p r] by simp
      then show ?thesis using True by auto
    next
      case False
      then show ?thesis using "1.prems" by (subst (asm) advance_loop.simps) auto
    qed
  qed
  have add: "bs1 = bs + 4 \<and> length d1 = length d"
    if "add_sample s d bs = Inr (s1, d1, bs1)" for s d bs s1 d1 bs1
    using that
    by (auto simp: add_sample_def Let_def slice_def StoreF64SampleAsL16_real_def StoreL16Sample_def
             split: sum.splits if_splits)
  have r2: "advance_loop self1 readBuffer = Inr (self2, readBuffer2)" using b by simp
  show "((self2, readBuffer2, dst1, bytesServed1), self, readBuffer, dst, bytesServed)
          \<in> measure (\<lambda>(self, readBuffer, dst, bytesServed).
                   length readBuffer + nat (int (length dst) - bytesServed))"
  proof (cases "fracPos self < 1.0")
    case True
    then have "add_sample self dst bytesServed = Inr (self1, dst1, bytesServed1)"
      using a by auto
    then have "bytesServed1 = bytesServed + 4 \<and> length dst1 = length dst" by (rule add)
    moreover have "length readBuffer2 \<le> length readBuffer" using adv [OF r2] by simp
    ultimately show ?thesis using c by auto
  next
    case False
    then have "self1 = self" "dst1 = dst" "bytesServed1 = bytesServed" using a by auto
    moreover have "length readBuffer2 < length readBuffer"
      using adv [OF r2] False c \<open>self1 = self\<close> by simp
    ultimately show ?thesis by simp
  qed
qed

declare process_loop.simps [simp del]

text \<open>
  \<open>singleRead\<close>: the destination buffer after the call, the number of bytes served, the
  error of the source and the new shifter. The read buffer is \<open>auxReadBuffer\<close> resliced
  or a fresh slice of \<open>leftoverBytes + bytesToRead\<close> bytes; either way it holds the last
  \<open>leftoverBytes\<close> bytes of the old \<open>auxReadBuffer\<close> followed by the bytes the source
  delivers, and the reslice panics when \<open>leftoverBytes\<close> is negative or exceeds the old
  length.
\<close>

definition singleRead ::
    "SpeedShifter \<Rightarrow> byte list \<Rightarrow> panic + (byte list \<times> int \<times> ioerr option \<times> SpeedShifter)" where
  "singleRead self dst =
     (if length dst = 0 then Inr (dst, 0, None, self)
      else
        let requiredLookahead = windowSize self * 2;
            pendingLookahead = requiredLookahead - lookaheadBytes self;
            readCompensation = pendingLookahead - leftoverBytes self;
            samplesRequired = real_of_int \<lceil>(real (length dst) * speed self) / 4.0\<rceil>;
            bytesToRead = go_trunc (samplesRequired * 4.0 + real_of_int readCompensation)
        in if bytesToRead \<le> 0 then Inl (Panic ''unexpected situation'')
           else if leftoverBytes self < 0
                   \<or> leftoverBytes self > int (length (auxReadBuffer self))
           then Inl SliceOutOfRange
           else
             (case reader_read (source self) (nat bytesToRead) of
                (bs, err, src') \<Rightarrow>
                  let readBuffer =
                        drop (length (auxReadBuffer self) - nat (leftoverBytes self))
                          (auxReadBuffer self) @ bs;
                      self1 = self\<lparr>source := src', auxReadBuffer := readBuffer\<rparr>
                  in (case lookahead_loop self1 readBuffer of
                        Inl p \<Rightarrow> Inl p
                      | Inr (short, self2, readBuffer2) \<Rightarrow>
                          if short then
                            Inr (dst, 0, err, self2\<lparr>leftoverBytes := int (length readBuffer2)\<rparr>)
                          else
                            (case process_loop self2 readBuffer2 dst 0 of
                               Inl p \<Rightarrow> Inl p
                             | Inr (self3, readBuffer3, dst3, bytesServed) \<Rightarrow>
                                 Inr (dst3, bytesServed, err,
                                      self3\<lparr>leftoverBytes := int (length readBuffer3)\<rparr>)))))"

text \<open>
  The loop of \<open>SpeedShifter.Read\<close> on the buffer cut to \<open>n\<close> bytes, a multiple of 4:
  \<open>singleRead\<close> on \<open>buffer[bytesServed:]\<close> until the buffer is full or the source
  reports an error. A \<open>singleRead\<close> without error has taken an entry off the source's
  schedule or a byte off its data, so the loop ends.
\<close>

function SpeedShifter_Read_loop ::
    "SpeedShifter \<Rightarrow> byte list \<Rightarrow> int
       \<Rightarrow> panic + (byte list \<times> int \<times> ioerr option \<times> SpeedShifter)" where
  "SpeedShifter_Read_loop self dst bytesServed =
     (if bytesServed < int (length dst) then
        (case slice dst bytesServed (int (length dst)) of
           Inl p \<Rightarrow> Inl p
         | Inr tail \<Rightarrow>
             (case singleRead self tail of
                Inl p \<Rightarrow> Inl p
              | Inr (tail', n, err, self') \<Rightarrow>
                  if err \<noteq> None
                  then Inr (take (nat bytesServed) dst @ tail', bytesServed + n, err, self')
                  else SpeedShifter_Read_loop self' (take (nat bytesServed) dst @ tail')
                         (bytesServed + n)))
      else Inr (dst, bytesServed, None, self))"
  by pat_completeness auto
termination
proof (relation "measure (\<lambda>(self, dst, bytesServed). reader_left (source self))")
  show "wf (measure (\<lambda>(self, dst, bytesServed). reader_left (source self)))"
    by simp
next
  fix self :: SpeedShifter and dst :: "byte list" and bytesServed :: int
    and tail x2a tail' y n ya err self'
  assume c: "bytesServed < int (length dst)"
    and s: "slice dst bytesServed (int (length dst)) = Inr tail"
    and r: "singleRead self tail = Inr x2a" "(tail', y) = x2a" "(n, ya) = y" "(err, self') = ya"
    and e: "\<not> err \<noteq> None"
  have look: "source s' = source s"
    if "lookahead_loop s rb = Inr (f, s', rb')" for s rb f s' rb'
    using that
  proof (induction s rb arbitrary: f s' rb' rule: lookahead_loop.induct)
    case (1 s rb)
    show ?case
    proof (cases "lookaheadBytes s < windowSize s * 2 \<and> \<not> length rb < 4")
      case True
      then obtain left right sp where g: "GetSampleAsI16 rb = Inr (left, right)"
        and p: "push_both s (real_of_int (sint left)) (real_of_int (sint right)) = Inr sp"
        and l: "lookahead_loop (sp\<lparr>lookaheadBytes := lookaheadBytes sp + 4\<rparr>) (drop 4 rb)
                  = Inr (f, s', rb')"
        using "1.prems" by (subst (asm) lookahead_loop.simps) (auto split: sum.splits prod.splits)
      have "source sp = source s"
        using p by (auto simp: push_both_def split: sum.splits)
      moreover have "source s' = source (sp\<lparr>lookaheadBytes := lookaheadBytes sp + 4\<rparr>)"
        using True g p l by (intro "1.IH" [of "(left, right)" left right sp]) auto
      ultimately show ?thesis by simp
    next
      case False
      then show ?thesis using "1.prems"
        by (subst (asm) lookahead_loop.simps) (auto split: if_splits)
    qed
  qed
  have adv: "source s' = source s"
    if "advance_loop s rb = Inr (s', rb')" for s rb s' rb'
    using that
  proof (induction s rb arbitrary: s' rb' rule: advance_loop.induct)
    case (1 s rb)
    show ?case
    proof (cases "fracPos s \<ge> 1.0 \<and> length rb \<ge> 4")
      case True
      then obtain left right sp where g: "GetSampleAsI16 rb = Inr (left, right)"
        and p: "push_both s (real_of_int (sint left)) (real_of_int (sint right)) = Inr sp"
        and l: "advance_loop (sp\<lparr>fracPos := fracPos sp - 1.0\<rparr>) (drop 4 rb) = Inr (s', rb')"
        using "1.prems" by (subst (asm) advance_loop.simps) (auto split: sum.splits prod.splits)
      have "source sp = source s"
        using p by (auto simp: push_both_def split: sum.splits)
      moreover have "source s' = source (sp\<lparr>fracPos := fracPos sp - 1.0\<rparr>)"
        using "1.IH" [OF True g refl p l] .
      ultimately show ?thesis by simp
    next
      case False
      then show ?thesis using "1.prems" by (subst (asm) advance_loop.simps) auto
    qed
  qed
  have add: "source s1 = source s"
    if "add_sample s d b = Inr (s1, d1, b1)" for s d b s1 d1 b1
    using that by (auto simp: add_sample_def Let_def split: sum.splits)
  have proc: "source s' = source s"
    if "process_loop s rb d b = Inr (s', rb', d', b')" for s rb d b s' rb' d' b'
    using that
  proof (induction s rb d b arbitrary: s' rb' d' b' rule: process_loop.induct)
    case (1 s rb d b)
    show ?case
    proof (cases "length rb \<ge> 4 \<and> b < int (length d)")
      case True
      then obtain s1 d1 b1 s2 rb2
        where a: "(if fracPos s < 1.0 then add_sample s d b else Inr (s, d, b)) = Inr (s1, d1, b1)"
        and v: "advance_loop s1 rb = Inr (s2, rb2)"
        and l: "process_loop s2 rb2 d1 b1 = Inr (s', rb', d', b')"
        using "1.prems" by (subst (asm) process_loop.simps) (auto split: sum.splits prod.splits)
      have "source s1 = source s" using a add by (auto split: if_splits)
      moreover have "source s2 = source s1" using adv [OF v] .
      moreover have "source s' = source s2"
        using "1.IH" [OF True a refl refl v refl l] .
      ultimately show ?thesis by simp
    next
      case False
      then show ?thesis using "1.prems" by (subst (asm) process_loop.simps) auto
    qed
  qed
  have rd: "reader_left src' < reader_left src"
    if "reader_read src k = (bs, None, src')" "0 < k" for src k bs src'
    using that
    by (cases src)
       (auto simp: reader_read_def reader_left_def stream_read_def Let_def
             split: if_splits list.splits prod.splits)
  have sr: "singleRead self tail = Inr (tail', n, None, self')" using r e by auto
  have tl: "length tail \<noteq> 0" using s c by (auto simp: slice_def split: if_splits)
  have "reader_left (source self') < reader_left (source self)"
    using sr tl look proc rd
    unfolding singleRead_def Let_def
    by (auto split: if_splits prod.splits sum.splits)
  then show "((self', take (nat bytesServed) dst @ tail', bytesServed + n), self, dst, bytesServed)
          \<in> measure (\<lambda>(self, dst, bytesServed). reader_left (source self))"
    by simp
qed

declare SpeedShifter_Read_loop.simps [simp del]

text \<open>\<open>SpeedShifter.Read\<close>: the buffer is first cut to a multiple of 4 bytes; the bytes
  behind the cut are left as they are.\<close>

definition SpeedShifter_Read ::
    "SpeedShifter \<Rightarrow> byte list \<Rightarrow> panic + (byte list \<times> int \<times> ioerr option \<times> SpeedShifter)" where
  "SpeedShifter_Read self dst =
     (let n = int (length dst) - (int (length dst) AND 3)
      in case slice dst 0 n of
           Inl p \<Rightarrow> Inl p
         | Inr trimmed \<Rightarrow>
             (case SpeedShifter_Read_loop self trimmed 0 of
                Inl p \<Rightarrow> Inl p
              | Inr (trimmed', bytesServed, err, self') \<Rightarrow>
                  Inr (trimmed' @ drop (nat n) dst, bytesServed, err, self')))"

subsection \<open>For stating the SpeedShifter's properties\<close>

text \<open>\<open>shifter_ok\<close> is what \<open>NewSpeedShifter\<close> establishes and every method keeps: a
  window size of at least 2 and two windows of that capacity within their buffers.
  \<open>reset_sample\<close> is the sample \<open>internalReset\<close> pushes after the zeros: the normalized
  first sample of a full 4-byte read, zero otherwise. \<open>primed src ws s\<close> says that the
  shifter \<open>s\<close> is as a reset on the source \<open>src\<close> with window size \<open>ws\<close> leaves it: both
  counters zero, both windows holding \<open>ws/2 - 1\<close> zeros and then the reset sample, the
  source read once.\<close>

definition shifter_ok :: "SpeedShifter \<Rightarrow> bool" where
  "shifter_ok self \<longleftrightarrow>
     2 \<le> windowSize self
     \<and> winSize (leftWindow self) = windowSize self
     \<and> winSize (rightWindow self) = windowSize self
     \<and> windowSize self \<le> int (length (wbuffer (leftWindow self)))
     \<and> windowSize self \<le> int (length (wbuffer (rightWindow self)))"


definition reset_sample :: "byte list \<Rightarrow> real \<times> real" where
  "reset_sample bs =
     (if length bs = 4 then (case GetSampleAsF64_real bs of Inr p \<Rightarrow> p | Inl _ \<Rightarrow> (0, 0))
      else (0, 0))"


definition primed :: "io_reader \<Rightarrow> int \<Rightarrow> SpeedShifter \<Rightarrow> bool" where
  "primed src ws s \<longleftrightarrow>
     leftoverBytes s = 0 \<and> lookaheadBytes s = 0
     \<and> Get (leftWindow s) =
           Inr (replicate (nat (go_quot ws 2 - 1)) 0 @ [fst (reset_sample (fst (reader_read src 4)))])
     \<and> Get (rightWindow s) =
           Inr (replicate (nat (go_quot ws 2 - 1)) 0 @ [snd (reset_sample (fst (reader_read src 4)))])
     \<and> source s = snd (snd (reader_read src 4))"

section \<open>Example inputs\<close>

text \<open>A 16-byte source (four samples); a linear interpolator, as a caller may pass to
  \<open>NewSpeedShifter\<close>; the shifter \<open>NewSpeedShifter\<close> builds on the source with speed 0.5,
  window size 2 and that interpolator (\<open>ex_new_constructed\<close> below); that shifter after one
  \<open>Read\<close> into a 6-byte buffer; and the latter sought back to the start. Before them, a
  result for the conversions of \<open>float64\<close> that Go leaves to the implementation: zero.\<close>

definition ex_data :: "byte list" where
  "ex_data = [0, 1, 0, 2, 0, 3, 0, 4, 0, 5, 0, 6, 0, 7, 0, 8]"

definition ex_unrepresentable :: "float64 \<Rightarrow> int16" where
  "ex_unrepresentable v = 0"

definition ex_linear :: "real list \<Rightarrow> real \<Rightarrow> panic + real" where
  "ex_linear samples x =
     (let i = nat \<lfloor>x\<rfloor> in
      if i + 1 < length samples then
        Inr (samples ! i + (samples ! (i + 1) - samples ! i) * (x - real i))
      else if i < length samples then Inr (samples ! i)
      else Inl IndexOutOfRange)"

definition ex_new :: SpeedShifter where
  "ex_new =
     \<lparr>source = AlsoSeeker \<lparr>sdata = ex_data, soff = 4, slimits = []\<rparr>,
      speed = 1 / 2, windowSize = 2, interpolator = ex_linear,
      fracPos = 0, leftoverBytes = 0, lookaheadBytes = 0,
      leftWindow = \<lparr>winSize = 2, wbuffer = (replicate 16 0)[0 := 256 / 32767],
                    startIndex = 0, endIndex = 1\<rparr>,
      rightWindow = \<lparr>winSize = 2, wbuffer = (replicate 16 0)[0 := 512 / 32767],
                     startIndex = 0, endIndex = 1\<rparr>,
      auxReadBuffer = []\<rparr>"

definition ex_played :: SpeedShifter where
  "ex_played =
     (case SpeedShifter_Read ex_new (replicate 6 9) of
        Inr (dst, n, err, self') \<Rightarrow> self'
      | Inl _ \<Rightarrow> ex_new)"

definition ex_rewound :: SpeedShifter where
  "ex_rewound =
     (case SpeedShifter_Seek ex_played 0 SeekStart of
        Inr (pos, err, self') \<Rightarrow> self'
      | Inl _ \<Rightarrow> ex_played)"
section \<open>Properties of binary64 rounding\<close>

text \<open>
  What the proofs below use of \<open>round64\<close>: its result is a binary64 number
  (\<open>round64_valid\<close>); it keeps the sign (\<open>round64_sign\<close>); it does not exceed a binary64
  number that bounds its argument (\<open>round64_bounded\<close>); it leaves a binary64 number
  unchanged (\<open>round64_exact\<close>); and below the overflow threshold it is off by at most
  \<open>2\<^sup>-\<^sup>5\<^sup>3\<close> of its argument, or \<open>2\<^sup>-\<^sup>1\<^sup>0\<^sup>7\<^sup>5\<close> in the subnormal range (\<open>round64_error\<close>).
\<close>

lemma rne_error: "\<bar>of_int (rne y) - y\<bar> \<le> 1 / 2"
proof -
  have a: "of_int \<lfloor>y\<rfloor> \<le> y" and b: "y < of_int \<lfloor>y\<rfloor> + 1" by linarith+
  show ?thesis using a b unfolding rne_def Let_def by (auto simp: abs_le_iff)
qed

lemma rne_of_int [simp]: "rne (of_int k) = k"
  by (simp add: rne_def)

lemma rne_abs_le:
  assumes "\<bar>y\<bar> \<le> of_int K"
  shows "\<bar>rne y\<bar> \<le> K"
proof -
  have "\<bar>of_int (rne y) - y\<bar> \<le> 1 / 2" by (rule rne_error)
  hence "\<bar>(of_int (rne y) :: rat)\<bar> \<le> of_int K + 1 / 2" using assms by linarith
  hence "(of_int \<bar>rne y\<bar> :: rat) < of_int (K + 1)" by simp
  hence "\<bar>rne y\<bar> < K + 1" by (simp only: of_int_less_iff)
  thus ?thesis by simp
qed

lemma rne_nonneg: "0 \<le> y \<Longrightarrow> 0 \<le> rne y"
  by (auto simp: rne_def Let_def)

lemma rne_nonpos: "y \<le> 0 \<Longrightarrow> rne y \<le> 0"
proof -
  assume "y \<le> 0"
  have "\<bar>of_int (rne y) - y\<bar> \<le> 1 / 2" by (rule rne_error)
  hence "(of_int (rne y) :: rat) < 1" using \<open>y \<le> 0\<close> by linarith
  thus ?thesis by simp
qed

lemma ilog2_bounds:
  assumes "x \<noteq> 0"
  shows "2 powi (ilog2 x) \<le> \<bar>x\<bar>" and "\<bar>x\<bar> < 2 powi (ilog2 x + 1)"
proof -
  obtain a b where ab: "quotient_of \<bar>x\<bar> = (a, b)" by (cases "quotient_of \<bar>x\<bar>")
  have b: "0 < b" using ab by (rule quotient_of_denom_pos)
  have x: "\<bar>x\<bar> = of_int a / of_int b" using ab by (rule quotient_of_div)
  have "0 < \<bar>x\<bar>" using assms by simp
  hence a: "0 < a" using b x by (simp add: zero_less_divide_iff)
  define la lb where "la = bitlen a" and "lb = bitlen b"
  have la: "2 ^ nat (la - 1) \<le> a" "a < 2 ^ nat la" using bitlen_bounds[OF a] by (simp_all add: la_def)
  have lb: "2 ^ nat (lb - 1) \<le> b" "b < 2 ^ nat lb" using bitlen_bounds[OF b] by (simp_all add: lb_def)
  have la1: "1 \<le> la" using a bitlen_eq_zero_iff[of a] bitlen_nonneg[of a] by (simp add: la_def) 
  have lb1: "1 \<le> lb" using b bitlen_eq_zero_iff[of b] bitlen_nonneg[of b] by (simp add: lb_def)
  have ra: "(2::rat) powi (la - 1) \<le> of_int a" "(of_int a :: rat) < 2 powi la"
  proof -
    have "(of_int (2 ^ nat (la - 1)) :: rat) \<le> of_int a" using la(1) by (simp only: of_int_le_iff)
    thus "(2::rat) powi (la - 1) \<le> of_int a" using la1 by (simp add: power_int_nonneg_exp)
    have "(of_int a :: rat) < of_int (2 ^ nat la)" using la(2) by (simp only: of_int_less_iff)
    thus "(of_int a :: rat) < 2 powi la" using la1 by (simp add: power_int_nonneg_exp)
  qed
  have rb: "(2::rat) powi (lb - 1) \<le> of_int b" "(of_int b :: rat) < 2 powi lb"
  proof -
    have "(of_int (2 ^ nat (lb - 1)) :: rat) \<le> of_int b" using lb(1) by (simp only: of_int_le_iff)
    thus "(2::rat) powi (lb - 1) \<le> of_int b" using lb1 by (simp add: power_int_nonneg_exp)
    have "(of_int b :: rat) < of_int (2 ^ nat lb)" using lb(2) by (simp only: of_int_less_iff)
    thus "(of_int b :: rat) < 2 powi lb" using lb1 by (simp add: power_int_nonneg_exp)
  qed
  have bpos: "(0::rat) < of_int b" using b by simp
  have apos: "(0::rat) < of_int a" using a by simp
  have lo: "(2::rat) powi (la - lb - 1) \<le> \<bar>x\<bar>"
  proof -
    have "(2::rat) powi (la - lb - 1) * of_int b \<le> 2 powi (la - lb - 1) * 2 powi lb"
      using rb(2) by (intro mult_left_mono) simp_all
    also have "\<dots> = 2 powi (la - 1)" by (simp add: power_int_add [symmetric])
    also have "\<dots> \<le> of_int a" by (rule ra(1))
    finally show ?thesis unfolding x using bpos by (simp add: pos_le_divide_eq)
  qed
  have hi: "\<bar>x\<bar> < (2::rat) powi (la - lb + 1)"
  proof -
    have "of_int a < (2::rat) powi la" by (rule ra(2))
    also have "\<dots> = 2 powi (la - lb + 1) * 2 powi (lb - 1)" by (simp add: power_int_add [symmetric])
    also have "\<dots> \<le> 2 powi (la - lb + 1) * of_int b"
      using rb(1) by (intro mult_left_mono) simp_all
    finally show ?thesis unfolding x using bpos by (simp add: pos_divide_less_eq)
  qed
  have il: "ilog2 x = (if 2 powi (la - lb) \<le> \<bar>x\<bar> then la - lb else la - lb - 1)"
    by (simp add: ilog2_def ab la_def lb_def Let_def)
  show "2 powi (ilog2 x) \<le> \<bar>x\<bar>" using lo by (simp add: il)
  show "\<bar>x\<bar> < 2 powi (ilog2 x + 1)" using hi by (auto simp: il not_le)
qed

lemma ilog2_less: "x \<noteq> 0 \<Longrightarrow> \<bar>x\<bar> < 2 powi k \<Longrightarrow> ilog2 x < k"
proof (rule ccontr)
  assume x: "x \<noteq> 0" and b: "\<bar>x\<bar> < 2 powi k" and n: "\<not> ilog2 x < k"
  have "(2::rat) powi k \<le> 2 powi (ilog2 x)" using n by (intro power_int_increasing) simp_all
  also have "\<dots> \<le> \<bar>x\<bar>" using x by (rule ilog2_bounds)
  finally show False using b by simp
qed

lemma ilog2_ge: "x \<noteq> 0 \<Longrightarrow> 2 powi k \<le> \<bar>x\<bar> \<Longrightarrow> k \<le> ilog2 x"
proof (rule ccontr)
  assume x: "x \<noteq> 0" and b: "2 powi k \<le> \<bar>x\<bar>" and n: "\<not> k \<le> ilog2 x"
  have "\<bar>x\<bar> < 2 powi (ilog2 x + 1)" using x by (rule ilog2_bounds)
  also have "\<dots> \<le> 2 powi k" using n by (intro power_int_increasing) simp_all
  finally show False using b by simp
qed


lemma scaled_less:
  assumes "x \<noteq> 0" and "ilog2 x - 52 \<le> q"
  shows "\<bar>x / 2 powi q\<bar> < 2 ^ 53"
proof -
  have "\<bar>x\<bar> < 2 powi (ilog2 x + 1)" using assms(1) by (rule ilog2_bounds)
  also have "\<dots> \<le> 2 powi (q + 53)" using assms(2) by (intro power_int_increasing) simp_all
  also have "\<dots> = 2 powi q * 2 ^ 53" by (simp add: power_int_add)
  finally have "\<bar>x\<bar> / 2 powi q < 2 ^ 53" by (simp add: pos_divide_less_eq mult.commute)
  thus ?thesis by (simp add: abs_divide)
qed

lemma round64_spec:
  assumes x: "x \<noteq> 0"
  obtains m q where
    "round64 x = (if 971 < q then (if 0 < x then PosInf else NegInf) else Finite m q)"
    "\<bar>m\<bar> < 2 ^ 53" "- 1074 \<le> q"
    "q = max (ilog2 x - 52) (- 1074) \<or> q = max (ilog2 x - 52) (- 1074) + 1 \<and> \<bar>m\<bar> = 2 ^ 52"
    "(of_int m :: rat) * 2 powi q
       = of_int (rne (x / 2 powi max (ilog2 x - 52) (- 1074))) * 2 powi max (ilog2 x - 52) (- 1074)"
proof -
  define q0 where "q0 = max (ilog2 x - 52) (- 1074)"
  define m0 where "m0 = rne (x / 2 powi q0)"
  have "\<bar>x / 2 powi q0\<bar> < 2 ^ 53" by (rule scaled_less [OF x]) (simp add: q0_def)
  hence "\<bar>x / 2 powi q0\<bar> \<le> of_int (2 ^ 53)" by simp
  hence m0: "\<bar>m0\<bar> \<le> 2 ^ 53" unfolding m0_def by (rule rne_abs_le)
  show ?thesis
  proof (cases "\<bar>m0\<bar> = 2 ^ 53")
    case True
    have r: "round64 x = (if 971 < q0 + 1 then (if 0 < x then PosInf else NegInf)
                          else Finite (m0 div 2) (q0 + 1))"
      using x True by (simp add: round64_def Let_def q0_def [symmetric] m0_def [symmetric])
    have "m0 = 2 ^ 53 \<or> m0 = - (2 ^ 53)" using True by (auto simp: abs_if split: if_splits)
    hence ev: "m0 = 2 * (m0 div 2)" and h: "\<bar>m0 div 2\<bar> < 2 ^ 53"
      and h': "\<bar>m0 div 2\<bar> = 2 ^ 52" by auto
    have "(of_int (m0 div 2) :: rat) * 2 powi (q0 + 1) = of_int (2 * (m0 div 2)) * 2 powi q0"
      by (simp add: power_int_add)
    hence v: "(of_int (m0 div 2) :: rat) * 2 powi (q0 + 1) = of_int m0 * 2 powi q0"
      using ev by simp
    show ?thesis
      by (rule that [of "q0 + 1" "m0 div 2"])
         (use r h h' v in \<open>simp_all add: q0_def [symmetric] m0_def [symmetric]\<close>, simp add: q0_def)
  next
    case False
    have r: "round64 x = (if 971 < q0 then (if 0 < x then PosInf else NegInf) else Finite m0 q0)"
      using x False by (simp add: round64_def Let_def q0_def [symmetric] m0_def [symmetric])
    have h: "\<bar>m0\<bar> < 2 ^ 53" using m0 False by simp
    show ?thesis
      by (rule that [of q0 m0])
         (use r h in \<open>simp_all add: q0_def [symmetric] m0_def [symmetric]\<close>, simp add: q0_def)
  qed
qed

lemma quantum_error:
  "\<bar>of_int (rne (x / 2 powi q)) * 2 powi q - x\<bar> \<le> 2 powi q / 2"
proof -
  have p: "(0::rat) < 2 powi q" by simp
  have "of_int (rne (x / 2 powi q)) * 2 powi q - x = (of_int (rne (x / 2 powi q)) - x / 2 powi q) * 2 powi q"
    by (simp add: algebra_simps)
  hence "\<bar>of_int (rne (x / 2 powi q)) * 2 powi q - x\<bar> = \<bar>of_int (rne (x / 2 powi q)) - x / 2 powi q\<bar> * 2 powi q"
    using p by (simp add: abs_mult)
  also have "\<dots> \<le> (1 / 2) * 2 powi q" using rne_error [of "x / 2 powi q"] p
    by (intro mult_right_mono) simp_all
  finally show ?thesis by simp
qed

lemma round64_valid: "is_float64 (round64 x)"
proof (cases "x = 0")
  case True thus ?thesis by (simp add: round64_def)
next
  case False
  obtain m q where "round64 x = (if 971 < q then (if 0 < x then PosInf else NegInf) else Finite m q)"
    "\<bar>m\<bar> < 2 ^ 53" "- 1074 \<le> q"
    by (rule round64_spec [OF False]) blast
  thus ?thesis by auto
qed

lemma round64_sign:
  "0 \<le> x \<Longrightarrow> 0 \<le> valof (round64 x)" "x \<le> 0 \<Longrightarrow> valof (round64 x) \<le> 0"
proof -
  have g: "0 \<le> valof (round64 x)" if "0 < x" for x
  proof -
    from that have x: "x \<noteq> 0" by simp
    obtain m q where r: "round64 x = (if 971 < q then (if 0 < x then PosInf else NegInf) else Finite m q)"
      and v: "(of_int m :: rat) * 2 powi q
         = of_int (rne (x / 2 powi max (ilog2 x - 52) (- 1074))) * 2 powi max (ilog2 x - 52) (- 1074)"
      by (rule round64_spec [OF x]) blast
    have "0 \<le> rne (x / 2 powi max (ilog2 x - 52) (- 1074))" using that by (intro rne_nonneg) simp
    hence "0 \<le> (of_int m :: rat) * 2 powi q" unfolding v by simp
    thus ?thesis using r by auto
  qed
  have l: "valof (round64 x) \<le> 0" if "x < 0" for x
  proof -
    from that have x: "x \<noteq> 0" by simp
    obtain m q where r: "round64 x = (if 971 < q then (if 0 < x then PosInf else NegInf) else Finite m q)"
      and v: "(of_int m :: rat) * 2 powi q
         = of_int (rne (x / 2 powi max (ilog2 x - 52) (- 1074))) * 2 powi max (ilog2 x - 52) (- 1074)"
      by (rule round64_spec [OF x]) blast
    have "x / 2 powi max (ilog2 x - 52) (- 1074) \<le> 0" using that by (simp add: divide_le_0_iff)
    hence "rne (x / 2 powi max (ilog2 x - 52) (- 1074)) \<le> 0" by (rule rne_nonpos)
    hence "(of_int m :: rat) * 2 powi q \<le> 0" unfolding v by (simp add: mult_le_0_iff)
    thus ?thesis using r by auto
  qed
  show "0 \<le> x \<Longrightarrow> 0 \<le> valof (round64 x)" using g [of x] by (cases "x = 0") (auto simp: round64_def)
  show "x \<le> 0 \<Longrightarrow> valof (round64 x) \<le> 0" using l [of x] by (cases "x = 0") (auto simp: round64_def)
qed

lemma quantum_le_exponent:
  assumes x: "x \<noteq> 0" and b: "\<bar>x\<bar> \<le> of_int c * 2 powi e" and c: "c < 2 ^ 53" and e: "- 1074 \<le> e"
  shows "max (ilog2 x - 52) (- 1074) \<le> e"
proof (rule ccontr)
  assume "\<not> max (ilog2 x - 52) (- 1074) \<le> e"
  hence l: "e + 53 \<le> ilog2 x" using e by simp
  have "(of_int c :: rat) < of_int (2 ^ 53)" using c by (simp only: of_int_less_iff)
  hence "(of_int c :: rat) * 2 powi e < 2 ^ 53 * 2 powi e" by (intro mult_strict_right_mono) simp_all
  also have "\<dots> = 2 powi (e + 53)" by (simp add: power_int_add)
  also have "\<dots> \<le> 2 powi (ilog2 x)" using l by (intro power_int_increasing) simp_all
  also have "\<dots> \<le> \<bar>x\<bar>" using x by (rule ilog2_bounds)
  finally show False using b by simp
qed

lemma pow2_less_cancel: "(2::rat) powi a < 2 powi b \<Longrightarrow> a < b"
proof (rule ccontr)
  assume l: "(2::rat) powi a < 2 powi b" and "\<not> a < b"
  hence "(2::rat) powi b \<le> 2 powi a" by (intro power_int_increasing) simp_all
  thus False using l by simp
qed

lemma on_grid:
  assumes "q \<le> e"
  shows "(of_int c :: rat) * 2 powi e / 2 powi q = of_int (c * 2 ^ nat (e - q))"
proof -
  have "(2::rat) powi e = 2 powi (e - q) * 2 powi q" by (simp add: power_int_add [symmetric])
  moreover have "(2::rat) powi (e - q) = 2 ^ nat (e - q)" using assms by (simp add: power_int_nonneg_exp)
  ultimately show ?thesis by simp
qed

lemma on_grid':
  assumes "q \<le> e"
  shows "(of_int (c * 2 ^ nat (e - q)) :: rat) * 2 powi q = of_int c * 2 powi e"
proof -
  have "(2::rat) powi e = 2 powi (e - q) * 2 powi q" by (simp add: power_int_add [symmetric])
  moreover have "(2::rat) powi (e - q) = 2 ^ nat (e - q)" using assms by (simp add: power_int_nonneg_exp)
  ultimately show ?thesis by simp
qed

lemma round64_bounded:
  assumes b: "\<bar>x\<bar> \<le> of_int c * 2 powi e" and c: "c < 2 ^ 53" and e: "- 1074 \<le> e" "e \<le> 971"
  shows "is_finite (round64 x)" and "\<bar>valof (round64 x)\<bar> \<le> of_int c * 2 powi e"
proof -
  have "is_finite (round64 x) \<and> \<bar>valof (round64 x)\<bar> \<le> of_int c * 2 powi e"
  proof (cases "x = 0")
    case True thus ?thesis using b by (simp add: round64_def)
  next
    case False
    define q0 where "q0 = max (ilog2 x - 52) (- 1074)"
    obtain m q where r: "round64 x = (if 971 < q then (if 0 < x then PosInf else NegInf) else Finite m q)"
      and qq: "q = q0 \<or> q = q0 + 1 \<and> \<bar>m\<bar> = 2 ^ 52"
      and v: "(of_int m :: rat) * 2 powi q = of_int (rne (x / 2 powi q0)) * 2 powi q0"
      unfolding q0_def by (rule round64_spec [OF False]) blast
    have q0e: "q0 \<le> e" unfolding q0_def using False b c e(1) by (rule quantum_le_exponent)
    have p: "(0::rat) < 2 powi q0" by simp
    have "\<bar>x / 2 powi q0\<bar> = \<bar>x\<bar> / 2 powi q0" by (simp add: abs_divide)
    also have "\<dots> \<le> of_int c * 2 powi e / 2 powi q0" using b p by (simp add: divide_right_mono)
    also have "\<dots> = of_int (c * 2 ^ nat (e - q0))" using q0e by (rule on_grid)
    finally have "\<bar>rne (x / 2 powi q0)\<bar> \<le> c * 2 ^ nat (e - q0)" by (rule rne_abs_le)
    hence "(of_int \<bar>rne (x / 2 powi q0)\<bar> :: rat) \<le> of_int (c * 2 ^ nat (e - q0))"
      by (simp only: of_int_le_iff)
    hence "(of_int \<bar>rne (x / 2 powi q0)\<bar> :: rat) * 2 powi q0 \<le> of_int (c * 2 ^ nat (e - q0)) * 2 powi q0"
      using p by (intro mult_right_mono) simp_all
    also have "\<dots> = of_int c * 2 powi e" using q0e by (rule on_grid')
    finally have vb: "\<bar>(of_int m :: rat) * 2 powi q\<bar> \<le> of_int c * 2 powi e"
      unfolding v by (simp add: abs_mult)
    have "q \<le> 971"
    proof (cases "q = q0")
      case True thus ?thesis using q0e e(2) by simp
    next
      case False
      hence q: "q = q0 + 1" and m: "\<bar>m\<bar> = 2 ^ 52" using qq by auto
      have "\<bar>(of_int m :: rat) * 2 powi q\<bar> = of_int \<bar>m\<bar> * 2 powi q" by (simp add: abs_mult)
      also have "\<dots> = 2 powi (q0 + 53)" unfolding m q by (simp add: power_int_add)
      finally have "(2::rat) powi (q0 + 53) \<le> of_int c * 2 powi e" using vb by simp
      also have "(of_int c :: rat) * 2 powi e < 2 ^ 53 * 2 powi e"
      proof -
        have "(of_int c :: rat) < of_int (2 ^ 53)" using c by (simp only: of_int_less_iff)
        thus ?thesis by (intro mult_strict_right_mono) simp_all
      qed
      also have "\<dots> = 2 powi (e + 53)" by (simp add: power_int_add)
      finally have "q0 + 53 < e + 53" by (rule pow2_less_cancel)
      thus ?thesis using q e(2) by simp
    qed
    thus ?thesis using r vb by simp
  qed
  thus "is_finite (round64 x)" and "\<bar>valof (round64 x)\<bar> \<le> of_int c * 2 powi e" by simp_all
qed




lemma round64_exact:
  assumes m: "\<bar>m1\<bar> < 2 ^ 53" and e: "- 1074 \<le> e1" "e1 \<le> 971"
  shows "is_finite (round64 (of_int m1 * 2 powi e1))"
    and "valof (round64 (of_int m1 * 2 powi e1)) = of_int m1 * 2 powi e1"
proof -
  define x :: rat where "x = of_int m1 * 2 powi e1"
  have ax: "\<bar>x\<bar> \<le> of_int \<bar>m1\<bar> * 2 powi e1" by (simp add: x_def abs_mult)
  show fin: "is_finite (round64 (of_int m1 * 2 powi e1))"
    using round64_bounded(1) [OF ax m e] by (simp add: x_def)
  show "valof (round64 (of_int m1 * 2 powi e1)) = of_int m1 * 2 powi e1"
  proof (cases "x = 0")
    case True thus ?thesis by (simp add: x_def round64_def)
  next
    case False
    define q0 where "q0 = max (ilog2 x - 52) (- 1074)"
    obtain m q where r: "round64 x = (if 971 < q then (if 0 < x then PosInf else NegInf) else Finite m q)"
      and v: "(of_int m :: rat) * 2 powi q = of_int (rne (x / 2 powi q0)) * 2 powi q0"
      unfolding q0_def by (rule round64_spec [OF False]) blast
    have q0e: "q0 \<le> e1" unfolding q0_def using False ax m e(1) by (rule quantum_le_exponent)
    have "x / 2 powi q0 = of_int (m1 * 2 ^ nat (e1 - q0))" unfolding x_def using q0e by (rule on_grid)
    hence "of_int (rne (x / 2 powi q0)) * 2 powi q0 = (of_int (m1 * 2 ^ nat (e1 - q0)) :: rat) * 2 powi q0"
      by (simp only: rne_of_int)
    also have "\<dots> = x" unfolding x_def using q0e by (rule on_grid')
    finally have "(of_int m :: rat) * 2 powi q = x" using v by simp
    moreover have "round64 x = Finite m q" using r fin by (auto simp: x_def split: if_splits)
    ultimately show ?thesis by (simp add: x_def)
  qed
qed

lemma round64_error:
  assumes b: "\<bar>x\<bar> \<le> 2 powi 1023"
  shows "is_finite (round64 x)"
    and "\<bar>valof (round64 x) - x\<bar> \<le> \<bar>x\<bar> / 2 ^ 53 + 2 powi (- 1075)"
proof -
  have "(2::rat) powi 1023 = of_int (2 ^ 52) * 2 powi 971" by simp
  hence b': "\<bar>x\<bar> \<le> of_int (2 ^ 52) * 2 powi 971" using b by simp
  show fin: "is_finite (round64 x)" by (rule round64_bounded(1) [OF b']) simp_all
  show "\<bar>valof (round64 x) - x\<bar> \<le> \<bar>x\<bar> / 2 ^ 53 + 2 powi (- 1075)"
  proof (cases "x = 0")
    case True thus ?thesis by (simp add: round64_def)
  next
    case False
    define q0 where "q0 = max (ilog2 x - 52) (- 1074)"
    obtain m q where r: "round64 x = (if 971 < q then (if 0 < x then PosInf else NegInf) else Finite m q)"
      and v: "(of_int m :: rat) * 2 powi q = of_int (rne (x / 2 powi q0)) * 2 powi q0"
      unfolding q0_def by (rule round64_spec [OF False]) blast
    have "round64 x = Finite m q" using r fin by (auto split: if_splits)
    hence "valof (round64 x) = of_int (rne (x / 2 powi q0)) * 2 powi q0" using v by simp
    hence d: "\<bar>valof (round64 x) - x\<bar> \<le> 2 powi q0 / 2" using quantum_error [of x q0] by simp
    have "(2::rat) powi q0 / 2 \<le> \<bar>x\<bar> / 2 ^ 53 + 2 powi (- 1075)"
    proof (cases "q0 = - 1074")
      case True
      have "(2::rat) powi (- 1074) / 2 = 2 powi (- 1075)" by (simp add: power_int_minus)
      thus ?thesis using True by simp
    next
      case False
      hence q: "q0 = ilog2 x - 52" by (auto simp: q0_def max_def split: if_splits)
      have "(2::rat) powi q0 / 2 = 2 powi (ilog2 x) / 2 ^ 53"
        unfolding q by (simp add: power_int_diff)
      also have "\<dots> \<le> \<bar>x\<bar> / 2 ^ 53" using ilog2_bounds(1) [OF \<open>x \<noteq> 0\<close>]
        by (simp add: divide_right_mono)
      finally show ?thesis by simp
    qed
    thus ?thesis using d by linarith
  qed
qed

subsection \<open>Operators on finite operands\<close>

lemma is_finite_iff: "is_finite v \<longleftrightarrow> (\<exists>m e. v = Finite m e)"
  by (cases v) simp_all

lemma is_finite_not_NaN: "is_finite v \<Longrightarrow> v \<noteq> NaN"
  by (cases v) simp_all

lemma f64_le_finite: "is_finite a \<Longrightarrow> is_finite b \<Longrightarrow> (a \<le> b) = (valof a \<le> valof b)"
  unfolding less_eq_float64_def by (cases a; cases b) simp_all

lemma f64_le_infinite:
  "is_finite a \<Longrightarrow> a \<le> PosInf" "is_finite a \<Longrightarrow> \<not> PosInf \<le> a"
  "is_finite a \<Longrightarrow> NegInf \<le> a" "is_finite a \<Longrightarrow> \<not> a \<le> NegInf"
  unfolding less_eq_float64_def by (cases a; simp)+

lemma f64_le_NaN: "\<not> NaN \<le> a" "\<not> a \<le> NaN"
  unfolding less_eq_float64_def by (cases a; simp)+

lemma f64_add_finite:
  "is_finite a \<Longrightarrow> is_finite b \<Longrightarrow> a + b = round64 (valof a + valof b)"
  by (simp add: plus_float64_def f64_add_def is_finite_not_NaN)

lemma valof_f64_neg: "valof (f64_neg b) = - valof b"
  by (cases b) simp_all

lemma is_finite_f64_neg: "is_finite (f64_neg b) = is_finite b"
  by (cases b) simp_all

lemma f64_sub_finite:
  "is_finite a \<Longrightarrow> is_finite b \<Longrightarrow> a - b = round64 (valof a - valof b)"
  by (simp add: minus_float64_def f64_sub_def f64_add_def is_finite_not_NaN valof_f64_neg
        is_finite_f64_neg)

lemma f64_mul_finite:
  "is_finite a \<Longrightarrow> is_finite b \<Longrightarrow> a * b = round64 (valof a * valof b)"
  by (simp add: times_float64_def f64_mul_def is_finite_not_NaN)

lemma f64_div_finite:
  "is_finite a \<Longrightarrow> is_finite b \<Longrightarrow> valof b \<noteq> 0 \<Longrightarrow> a / b = round64 (valof a / valof b)"
  by (simp add: divide_float64_def f64_div_def is_finite_not_NaN)

lemma f64_lit_int:
  assumes "\<bar>k\<bar> < 2 ^ 53"
  shows "is_finite (f64_lit (of_int k))" and "valof (f64_lit (of_int k)) = of_int k"
  using round64_exact [OF assms, of 0] by (simp_all add: f64_lit_def)

lemma f64_of_int_exact:
  assumes "\<bar>k\<bar> < 2 ^ 53"
  shows "is_finite (f64_of_int k)" and "valof (f64_of_int k) = of_int k"
  using round64_exact [OF assms, of 0] by (simp_all add: f64_of_int_def)

section \<open>Properties of the sample codec\<close>

lemma i16_bytes_join:
  "(push_bit 8 (ucast (ucast (signed_drop_bit 8 l) :: byte) :: int16)) OR ucast (ucast l :: byte) = (l::int16)"
  by (rule bit_eqI) (auto simp add: bit_simps)

text \<open>
  Claim C7. For every pair of \<open>int16\<close> values \<open>(l, r)\<close> and every buffer of at least 4
  bytes, \<open>StoreL16Sample\<close> succeeds, keeps the buffer's length, and \<open>GetSampleAsI16\<close> on
  the buffer it wrote gives back exactly \<open>(l, r)\<close>.
\<close>

theorem store_then_get_sample:
  "length buffer \<ge> 4 \<Longrightarrow>
     \<exists>b'. StoreL16Sample buffer l r = Inr b' \<and> length b' = length buffer
          \<and> GetSampleAsI16 b' = Inr (l, r)"
proof -
  assume "length buffer \<ge> 4"
  then have "0 < length buffer" "1 < length buffer" "2 < length buffer" "3 < length buffer"
    by auto
  then show ?thesis
    by (simp add: StoreL16Sample_def GetSampleAsI16_def i16_bytes_join)
qed

theorem store_then_get_sample_witness:
  "4 \<le> length [0, 0, 0, 0 :: byte]
   \<and> (\<exists>b'. StoreL16Sample [0, 0, 0, 0] (-2) 258 = Inr b' \<and> length b' = length [0, 0, 0, 0 :: byte]
          \<and> GetSampleAsI16 b' = Inr (-2, 258))"
  using store_then_get_sample [of "[0, 0, 0, 0]" "-2" 258] by simp

lemma store_sample_bytes: "StoreL16Sample [0, 0, 0, 0] (-2) 258 = Inr [254, 255, 2, 1]"
  by code_simp

subsection \<open>Floats to \<open>int16\<close>\<close>

lemma sint_word_of_int_i16:
  "- 32768 \<le> t \<Longrightarrow> t \<le> 32767 \<Longrightarrow> sint (word_of_int t :: int16) = t"
  by (simp add: sint_sbintrunc' signed_take_bit_int_eq_self)

lemma f64_to_i16_in_range:
  "is_finite v \<Longrightarrow> - 32768 \<le> f64_trunc v \<Longrightarrow> f64_trunc v \<le> 32767 \<Longrightarrow>
     sint (f64_to_i16 u v) = f64_trunc v"
  by (simp add: f64_to_i16_def sint_word_of_int_i16)

text \<open>\<open>trunc_toward_zero\<close> drops less than one unit of magnitude and never changes the
  sign.\<close>

lemma trunc_toward_zero_spec:
  "\<bar>of_int (trunc_toward_zero x)\<bar> \<le> \<bar>x\<bar> \<and> \<bar>x\<bar> < \<bar>of_int (trunc_toward_zero x)\<bar> + 1
   \<and> (0 \<le> x \<longrightarrow> 0 \<le> trunc_toward_zero x) \<and> (x \<le> 0 \<longrightarrow> trunc_toward_zero x \<le> 0)"
  unfolding trunc_toward_zero_def by (auto; linarith)

lemma f64_trunc_range:
  assumes "- 32768 < valof v" "valof v < 32768"
  shows "- 32768 \<le> f64_trunc v" "f64_trunc v \<le> 32767"
proof -
  have a: "(of_int (- 32768) :: rat) < valof v" "valof v < of_int 32768" using assms by simp_all
  show "- 32768 \<le> f64_trunc v" using a(1) unfolding f64_trunc_def trunc_toward_zero_def
    by (auto simp: le_floor_iff less_ceiling_iff intro: less_imp_le dest: order_less_le_trans)
  have "f64_trunc v < 32768" using a(2) unfolding f64_trunc_def trunc_toward_zero_def
    by (auto simp: floor_less_iff ceiling_less_iff)
  thus "f64_trunc v \<le> 32767" by simp
qed

lemma clipFloatToI16_spec:
  assumes v: "is_float64 v" "v \<noteq> NaN"
  shows "sint (clipFloatToI16 u v) =
           (if v \<ge> f64_lit 32767 then 32767
            else if v \<le> f64_lit (- 32768) then - 32768
            else f64_trunc v)"
proof -
  have hi: "is_finite (f64_lit 32767)" "valof (f64_lit 32767) = 32767"
    using f64_lit_int [of 32767] by simp_all
  have lo: "is_finite (f64_lit (- 32768))" "valof (f64_lit (- 32768)) = - 32768"
    using f64_lit_int [of "- 32768"] by simp_all
  show ?thesis
  proof (cases "is_finite v")
    case True
    have ge: "(v \<ge> f64_lit 32767) = (32767 \<le> valof v)"
      using True hi by (simp add: f64_le_finite)
    have le: "(v \<le> f64_lit (- 32768)) = (valof v \<le> - 32768)"
      using True lo by (simp add: f64_le_finite)
    show ?thesis
    proof (cases "32767 \<le> valof v \<or> valof v \<le> - 32768")
      case True thus ?thesis by (auto simp: clipFloatToI16_def ge le)
    next
      case False
      hence r: "- 32768 < valof v" "valof v < 32768" by auto
      have "sint (f64_to_i16 u v) = f64_trunc v"
        using \<open>is_finite v\<close> f64_trunc_range [OF r] by (rule f64_to_i16_in_range)
      thus ?thesis using False by (simp add: clipFloatToI16_def ge le)
    qed
  next
    case False
    hence "v = PosInf \<or> v = NegInf" using v(2) by (cases v) simp_all
    thus ?thesis using hi(1) lo(1)
      by (auto simp: clipFloatToI16_def f64_le_infinite)
  qed
qed

lemma lt_one_exponent:
  assumes "\<bar>(of_int m :: rat) * 2 powi e\<bar> < 1" "m \<noteq> 0"
  shows "e < 0"
proof -
  have "1 \<le> \<bar>m\<bar>" using assms(2) by simp
  hence "(of_int 1 :: rat) \<le> of_int \<bar>m\<bar>" by (simp only: of_int_le_iff)
  hence "(1::rat) \<le> of_int \<bar>m\<bar>" by simp
  hence "1 * (2::rat) powi e \<le> of_int \<bar>m\<bar> * 2 powi e" by (intro mult_right_mono) simp_all
  hence "(2::rat) powi e \<le> of_int \<bar>m\<bar> * 2 powi e" by simp
  also have "\<dots> < 1" using assms(1) by (simp add: abs_mult)
  finally have "(2::rat) powi e < 2 powi 0" by simp
  thus ?thesis by (rule pow2_less_cancel)
qed

text \<open>The two products of \<open>normFloatToI16\<close>: by 32767 the rounded product stays within
  \<open>[0, 32767]\<close>; by 32768, a power of two, the product is exact.\<close>

lemma scaled_by_32767:
  assumes "is_finite v" "0 \<le> valof v" "valof v < 1"
  shows "v * f64_lit 32767 = round64 (valof v * 32767)"
    and "is_finite (v * f64_lit 32767)"
    and "0 \<le> valof (v * f64_lit 32767)" and "valof (v * f64_lit 32767) \<le> 32767"
proof -
  have k: "is_finite (f64_lit 32767)" "valof (f64_lit 32767) = 32767"
    using f64_lit_int [of 32767] by simp_all
  show m: "v * f64_lit 32767 = round64 (valof v * 32767)"
    using assms(1) k by (simp add: f64_mul_finite)
  have b: "\<bar>valof v * 32767\<bar> \<le> of_int 32767 * 2 powi 0" using assms by (simp add: abs_mult)
  show "is_finite (v * f64_lit 32767)" unfolding m by (rule round64_bounded(1) [OF b]) simp_all
  have "\<bar>valof (round64 (valof v * 32767))\<bar> \<le> of_int 32767 * 2 powi 0"
    by (rule round64_bounded(2) [OF b]) simp_all
  thus "valof (v * f64_lit 32767) \<le> 32767" unfolding m by simp
  show "0 \<le> valof (v * f64_lit 32767)" unfolding m using assms by (intro round64_sign) simp
qed

lemma scaled_by_32768:
  assumes "is_float64 v" "is_finite v" "- 1 < valof v" "valof v < 0"
  shows "v * f64_lit 32768 = round64 (valof v * 32768)"
    and "is_finite (v * f64_lit 32768)"
    and "valof (v * f64_lit 32768) = valof v * 32768"
proof -
  have k: "is_finite (f64_lit 32768)" "valof (f64_lit 32768) = 32768"
    using f64_lit_int [of 32768] by simp_all
  show m: "v * f64_lit 32768 = round64 (valof v * 32768)"
    using assms(2) k by (simp add: f64_mul_finite)
  obtain m e where ve: "v = Finite m e" using assms(2) by (auto simp: is_finite_iff)
  have mv: "\<bar>m\<bar> < 2 ^ 53" "- 1074 \<le> e" using assms(1) by (simp_all add: ve)
  have m0: "m \<noteq> 0" using assms(4) by (auto simp: ve)
  have "\<bar>(of_int m :: rat) * 2 powi e\<bar> < 1" using assms(3,4) by (simp add: ve abs_less_iff)
  hence e0: "e < 0" using m0 by (rule lt_one_exponent)
  have x: "valof v * 32768 = of_int m * 2 powi (e + 15)" by (simp add: ve power_int_add)
  show "is_finite (v * f64_lit 32768)" and "valof (v * f64_lit 32768) = valof v * 32768"
    unfolding m x using round64_exact [OF mv(1), of "e + 15"] mv(2) e0 by simp_all
qed

lemma normFloatToI16_spec:
  assumes v: "is_float64 v" "v \<noteq> NaN"
  shows "sint (normFloatToI16 u v) =
           (if v \<ge> f64_lit 1 then 32767
            else if v \<le> f64_lit (- 1) then - 32768
            else if v \<ge> f64_lit 0 then f64_trunc (v * f64_lit 32767)
            else f64_trunc (v * f64_lit 32768))"
proof -
  have one: "is_finite (f64_lit 1)" "valof (f64_lit 1) = 1" using f64_lit_int [of 1] by simp_all
  have mone: "is_finite (f64_lit (- 1))" "valof (f64_lit (- 1)) = - 1"
    using f64_lit_int [of "- 1"] by simp_all
  have zero: "is_finite (f64_lit 0)" "valof (f64_lit 0) = 0" using f64_lit_int [of 0] by simp_all
  show ?thesis
  proof (cases "is_finite v")
    case fin: True
    have ge1: "(v \<ge> f64_lit 1) = (1 \<le> valof v)" using fin one by (simp add: f64_le_finite)
    have ge0: "(v \<ge> f64_lit 0) = (0 \<le> valof v)" using fin zero by (simp add: f64_le_finite)
    have le1: "(v \<le> f64_lit (- 1)) = (valof v \<le> - 1)" using fin mone by (simp add: f64_le_finite)
    consider "1 \<le> valof v" | "valof v \<le> - 1" | "0 \<le> valof v" "valof v < 1"
      | "- 1 < valof v" "valof v < 0" by linarith
    thus ?thesis
    proof cases
      case 1 thus ?thesis by (simp add: normFloatToI16_def ge1 ge0)
    next
      case 2 thus ?thesis by (simp add: normFloatToI16_def ge1 ge0 le1)
    next
      case 3
      note p = scaled_by_32767 [OF fin 3]
      have "sint (f64_to_i16 u (v * f64_lit 32767)) = f64_trunc (v * f64_lit 32767)"
        using p(2) by (rule f64_to_i16_in_range) (use p(3,4) in \<open>simp_all add: f64_trunc_range\<close>)
      thus ?thesis using 3 by (simp add: normFloatToI16_def ge1 ge0 le1)
    next
      case 4
      note p = scaled_by_32768 [OF v(1) fin 4]
      have "sint (f64_to_i16 u (v * f64_lit 32768)) = f64_trunc (v * f64_lit 32768)"
        using p(2) by (rule f64_to_i16_in_range) (use 4 p(3) in \<open>simp_all add: f64_trunc_range\<close>)
      thus ?thesis using 4 by (simp add: normFloatToI16_def ge1 ge0 le1)
    qed
  next
    case False
    hence "v = PosInf \<or> v = NegInf" using v(2) by (cases v) simp_all
    thus ?thesis using one(1) mone(1) zero(1)
      by (auto simp: normFloatToI16_def f64_le_infinite)
  qed
qed

lemma codec_at_NaN:
  "clipFloatToI16 u NaN = u NaN" "normFloatToI16 u NaN = u NaN"
  by (simp_all add: clipFloatToI16_def normFloatToI16_def f64_le_NaN f64_to_i16_def
        times_float64_def f64_mul_def)

text \<open>
  Claim C8, as stated, fails at two inputs. The \<open>float64\<close> nearest to \<open>1/32767\<close> lies
  below \<open>1/32767\<close>: scaled by 32767 and then truncated it gives 0, but the code rounds the
  product to the \<open>float64\<close> 1.0 before it truncates, and returns 1. And NaN is a float
  input that is neither at or above 32767 nor at or below -32768 and has no truncation:
  for it the code returns what the platform's conversion of NaN to \<open>int16\<close> gives.
\<close>

theorem normFloatToI16_rounds_the_product:
  "f64_lit 0 \<le> f64_lit (1 / 32767) \<and> \<not> f64_lit 1 \<le> f64_lit (1 / 32767)
   \<and> trunc_toward_zero (valof (f64_lit (1 / 32767)) * 32767) = 0
   \<and> sint (normFloatToI16 ex_unrepresentable (f64_lit (1 / 32767))) = 1
   \<and> \<not> f64_lit 32767 \<le> NaN \<and> \<not> NaN \<le> f64_lit (- 32768)
   \<and> clipFloatToI16 ex_unrepresentable NaN = ex_unrepresentable NaN"
  by code_simp

text \<open>
  Claim C8, amended. For every \<open>float64\<close> input other than NaN, encoding to \<open>int16\<close>
  clips and truncates: a raw value at or above 32767 gives 32767, at or below -32768
  gives -32768, and any other value its truncation towards zero; a normalized value at
  or above 1 gives 32767, at or below -1 gives -32768, and any other value is multiplied
  by 32767 when non-negative and by 32768 when negative, the product is rounded to the
  nearest \<open>float64\<close> (which changes nothing for 32768), and the rounded product is
  truncated towards zero. The result is read as a signed 16-bit number: no conversion
  is out of range. For NaN both functions return the implementation-dependent result of
  the conversion of NaN. \<open>u\<close> is that result, any function.
\<close>

theorem float_to_i16_clipping:
  "(is_float64 v \<and> v \<noteq> NaN \<longrightarrow>
      sint (clipFloatToI16 u v) =
        (if v \<ge> f64_lit 32767 then 32767
         else if v \<le> f64_lit (- 32768) then - 32768
         else trunc_toward_zero (valof v))
    \<and> sint (normFloatToI16 u v) =
        (if v \<ge> f64_lit 1 then 32767
         else if v \<le> f64_lit (- 1) then - 32768
         else if v \<ge> f64_lit 0 then trunc_toward_zero (valof (round64 (valof v * 32767)))
         else trunc_toward_zero (valof v * 32768)))
   \<and> clipFloatToI16 u NaN = u NaN \<and> normFloatToI16 u NaN = u NaN"
proof -
  have "sint (normFloatToI16 u v) =
        (if v \<ge> f64_lit 1 then 32767
         else if v \<le> f64_lit (- 1) then - 32768
         else if v \<ge> f64_lit 0 then trunc_toward_zero (valof (round64 (valof v * 32767)))
         else trunc_toward_zero (valof v * 32768))"
    if v: "is_float64 v" "v \<noteq> NaN"
  proof (cases "is_finite v")
    case fin: True
    have one: "is_finite (f64_lit 1)" "valof (f64_lit 1) = 1" using f64_lit_int [of 1] by simp_all
    have mone: "is_finite (f64_lit (- 1))" "valof (f64_lit (- 1)) = - 1"
      using f64_lit_int [of "- 1"] by simp_all
    have zero: "is_finite (f64_lit 0)" "valof (f64_lit 0) = 0" using f64_lit_int [of 0] by simp_all
    have ge1: "(v \<ge> f64_lit 1) = (1 \<le> valof v)" using fin one by (simp add: f64_le_finite)
    have ge0: "(v \<ge> f64_lit 0) = (0 \<le> valof v)" using fin zero by (simp add: f64_le_finite)
    have le1: "(v \<le> f64_lit (- 1)) = (valof v \<le> - 1)" using fin mone by (simp add: f64_le_finite)
    have a: "f64_trunc (v * f64_lit 32767) = trunc_toward_zero (valof (round64 (valof v * 32767)))"
      if "0 \<le> valof v" "valof v < 1"
      using scaled_by_32767(1) [OF fin that] by (simp add: f64_trunc_def)
    have b: "f64_trunc (v * f64_lit 32768) = trunc_toward_zero (valof v * 32768)"
      if "- 1 < valof v" "valof v < 0"
      using scaled_by_32768(3) [OF v(1) fin that] by (simp add: f64_trunc_def)
    show ?thesis unfolding normFloatToI16_spec [OF v]
      using a b by (auto simp: ge1 ge0 le1 not_le)
  next
    case False
    thus ?thesis unfolding normFloatToI16_spec [OF v] using v(2)
      by (cases v) (auto simp: f64_le_infinite f64_lit_int [of 1, simplified]
            f64_lit_int [of "- 1", simplified])
  qed
  thus ?thesis
    using clipFloatToI16_spec [of v u] codec_at_NaN [of u] by (simp add: f64_trunc_def)
qed

theorem float_to_i16_clipping_witness:
  "is_float64 (f64_lit (- 3.7)) \<and> f64_lit (- 3.7) \<noteq> NaN
   \<and> sint (clipFloatToI16 ex_unrepresentable (f64_lit (- 3.7))) = - 3
   \<and> sint (normFloatToI16 ex_unrepresentable (f64_lit (- 3.7))) = - 32768
   \<and> is_float64 (f64_lit (1 / 32767)) \<and> f64_lit (1 / 32767) \<noteq> NaN
   \<and> sint (clipFloatToI16 ex_unrepresentable (f64_lit (1 / 32767))) = 0
   \<and> sint (normFloatToI16 ex_unrepresentable (f64_lit (1 / 32767))) = 1
   \<and> is_float64 (f64_lit (- 0.3)) \<and> f64_lit (- 0.3) \<noteq> NaN
   \<and> sint (normFloatToI16 ex_unrepresentable (f64_lit (- 0.3))) = - 9830
   \<and> is_float64 PosInf \<and> PosInf \<noteq> NaN
   \<and> sint (clipFloatToI16 ex_unrepresentable PosInf) = 32767"
proof -
  have a: "is_float64 (f64_lit (- 3.7)) \<and> f64_lit (- 3.7) \<noteq> NaN" by code_simp
  have b: "is_float64 (f64_lit (1 / 32767)) \<and> f64_lit (1 / 32767) \<noteq> NaN" by code_simp
  have c: "is_float64 (f64_lit (- 0.3)) \<and> f64_lit (- 0.3) \<noteq> NaN" by code_simp
  have d: "is_float64 PosInf \<and> PosInf \<noteq> NaN" by simp
  have a1: "(if f64_lit (- 3.7) \<ge> f64_lit 32767 then 32767
             else if f64_lit (- 3.7) \<le> f64_lit (- 32768) then - 32768
             else trunc_toward_zero (valof (f64_lit (- 3.7)))) = - 3" by code_simp
  have a2: "(if f64_lit (- 3.7) \<ge> f64_lit 1 then 32767
             else if f64_lit (- 3.7) \<le> f64_lit (- 1) then - 32768
             else if f64_lit (- 3.7) \<ge> f64_lit 0
               then trunc_toward_zero (valof (round64 (valof (f64_lit (- 3.7)) * 32767)))
             else trunc_toward_zero (valof (f64_lit (- 3.7)) * 32768)) = - 32768" by code_simp
  have b1: "(if f64_lit (1 / 32767) \<ge> f64_lit 32767 then 32767
             else if f64_lit (1 / 32767) \<le> f64_lit (- 32768) then - 32768
             else trunc_toward_zero (valof (f64_lit (1 / 32767)))) = 0" by code_simp
  have b2: "(if f64_lit (1 / 32767) \<ge> f64_lit 1 then 32767
             else if f64_lit (1 / 32767) \<le> f64_lit (- 1) then - 32768
             else if f64_lit (1 / 32767) \<ge> f64_lit 0
               then trunc_toward_zero (valof (round64 (valof (f64_lit (1 / 32767)) * 32767)))
             else trunc_toward_zero (valof (f64_lit (1 / 32767)) * 32768)) = 1" by code_simp
  have c2: "(if f64_lit (- 0.3) \<ge> f64_lit 1 then 32767
             else if f64_lit (- 0.3) \<le> f64_lit (- 1) then - 32768
             else if f64_lit (- 0.3) \<ge> f64_lit 0
               then trunc_toward_zero (valof (round64 (valof (f64_lit (- 0.3)) * 32767)))
             else trunc_toward_zero (valof (f64_lit (- 0.3)) * 32768)) = - 9830" by code_simp
  have d1: "(if PosInf \<ge> f64_lit 32767 then 32767
             else if PosInf \<le> f64_lit (- 32768) then - 32768
             else trunc_toward_zero (valof PosInf)) = 32767" by code_simp
  note at_a = float_to_i16_clipping [of "f64_lit (- 3.7)" ex_unrepresentable]
  note at_b = float_to_i16_clipping [of "f64_lit (1 / 32767)" ex_unrepresentable]
  note at_c = float_to_i16_clipping [of "f64_lit (- 0.3)" ex_unrepresentable]
  note at_d = float_to_i16_clipping [of PosInf ex_unrepresentable]
  have "sint (clipFloatToI16 ex_unrepresentable (f64_lit (- 3.7))) = - 3"
    using at_a a unfolding a1 a2 by blast
  moreover have "sint (normFloatToI16 ex_unrepresentable (f64_lit (- 3.7))) = - 32768"
    using at_a a unfolding a1 a2 by blast
  moreover have "sint (clipFloatToI16 ex_unrepresentable (f64_lit (1 / 32767))) = 0"
    using at_b b unfolding b1 b2 by blast
  moreover have "sint (normFloatToI16 ex_unrepresentable (f64_lit (1 / 32767))) = 1"
    using at_b b unfolding b1 b2 by blast
  moreover have "sint (normFloatToI16 ex_unrepresentable (f64_lit (- 0.3))) = - 9830"
    using at_c c unfolding c2 by blast
  moreover have "sint (clipFloatToI16 ex_unrepresentable PosInf) = 32767"
    using at_d d unfolding d1 by blast
  ultimately show ?thesis using a b c d by blast
qed

section \<open>Properties of the Looper\<close>

lemma and_3_eq_mod_4: "(x::int) AND 3 = x mod 4"
proof -
  have "(3::int) = mask 2" by (simp add: mask_eq_exp_minus_1)
  then have "x AND 3 = take_bit 2 x" by (simp add: take_bit_eq_mask)
  then show ?thesis by (simp add: take_bit_eq_mod)
qed

lemma assertLoopValuesValidity_ok:
  assumes "newStart mod 4 = 0" "newEnd mod 4 = 0" "0 \<le> newStart" "newStart < newEnd"
  shows "assertLoopValuesValidity newStart newEnd = None"
  using assms by (simp add: assertLoopValuesValidity_def and_3_eq_mod_4)

text \<open>
  Claim C1. For every looper and every call \<open>AdjustLoop(newStart, newEnd)\<close> with valid
  arguments (both multiples of 4, \<open>0 \<le> newStart < newEnd\<close>) the call does not panic;
  afterwards \<open>loopStart = newStart\<close> and \<open>loopEnd = newEnd\<close>; \<open>activeLoopEnd\<close> is set to
  \<open>newEnd\<close> when \<open>newEnd \<ge> position\<close> and keeps its previous value when
  \<open>newEnd < position\<close>. So, unless the previous active end already was \<open>newEnd\<close>,
  \<open>activeLoopEnd = newEnd\<close> afterwards if and only if \<open>newEnd \<ge> position\<close>. Position and
  stream are untouched.
\<close>

theorem AdjustLoop_active_end:
  assumes "newStart mod 4 = 0" "newEnd mod 4 = 0" "0 \<le> newStart" "newStart < newEnd"
  shows "\<exists>self'. AdjustLoop self newStart newEnd = Inr self'
     \<and> loopStart self' = newStart \<and> loopEnd self' = newEnd
     \<and> (newEnd \<ge> position self \<longrightarrow> activeLoopEnd self' = newEnd)
     \<and> (newEnd < position self \<longrightarrow> activeLoopEnd self' = activeLoopEnd self)
     \<and> (activeLoopEnd self \<noteq> newEnd \<longrightarrow>
           (activeLoopEnd self' = newEnd \<longleftrightarrow> newEnd \<ge> position self))
     \<and> position self' = position self \<and> stream self' = stream self"
  using assertLoopValuesValidity_ok [OF assms]
  by (auto simp: AdjustLoop_def Let_def)

theorem AdjustLoop_active_end_witness:
  "(\<exists>self'. AdjustLoop \<lparr>stream = \<lparr>sdata = replicate 32 0, soff = 10, slimits = []\<rparr>, position = 10,
                  loopStart = 0, activeLoopEnd = 16, loopEnd = 16\<rparr> 0 8 = Inr self'
       \<and> loopStart self' = 0 \<and> loopEnd self' = 8 \<and> activeLoopEnd self' = 16)
   \<and> (\<exists>self'. AdjustLoop \<lparr>stream = \<lparr>sdata = replicate 32 0, soff = 10, slimits = []\<rparr>, position = 10,
                  loopStart = 0, activeLoopEnd = 16, loopEnd = 16\<rparr> 0 20 = Inr self'
       \<and> loopStart self' = 0 \<and> loopEnd self' = 20 \<and> activeLoopEnd self' = 20)"
  using AdjustLoop_active_end [of 0 8 "\<lparr>stream = \<lparr>sdata = replicate 32 0, soff = 10, slimits = []\<rparr>,
                  position = 10, loopStart = 0, activeLoopEnd = 16, loopEnd = 16\<rparr>"]
    AdjustLoop_active_end [of 0 20 "\<lparr>stream = \<lparr>sdata = replicate 32 0, soff = 10, slimits = []\<rparr>,
                  position = 10, loopStart = 0, activeLoopEnd = 16, loopEnd = 16\<rparr>"]
  by auto

lemma readAll_loop_full:
  "0 < k \<Longrightarrow> soff st + k \<le> length (sdata st) \<Longrightarrow>
     \<exists>lims. readAll_loop st k =
       (take k (drop (soff st) (sdata st)), None, st\<lparr>soff := soff st + k, slimits := lims\<rparr>)"
proof (induction st k rule: readAll_loop.induct)
  case (1 st k)
  obtain bs err st' where r: "stream_read st k = (bs, err, st')"
    by (cases "stream_read st k") auto
  define n where "n = (case slimits st of [] \<Rightarrow> k | c # _ \<Rightarrow> min k c)"
  have lt: "soff st < length (sdata st)" using 1(2,3) by simp
  have avail: "min k (length (sdata st) - soff st) = k" using 1(3) by simp
  have bs: "bs = take n (drop (soff st) (sdata st))" and err: "err = None"
    and st': "st' = st\<lparr>soff := soff st + n, slimits := tl (slimits st)\<rparr>"
    using r lt avail unfolding stream_read_def n_def by (auto simp: Let_def)
  have nk: "n \<le> k" unfolding n_def by (auto split: list.splits)
  have len: "length bs = n" using bs nk 1(3) by simp
  show ?case
  proof (cases "n = k")
    case True
    then show ?thesis
      using r bs err st' len by (subst readAll_loop.simps) (auto simp del: readAll_loop.simps)
  next
    case False
    then have cont: "\<not> (length bs = k \<or> err \<noteq> None)" using len err by simp
    have "\<exists>lims. readAll_loop st' (k - length bs) =
       (take (k - length bs) (drop (soff st') (sdata st')), None,
        st'\<lparr>soff := soff st' + (k - length bs), slimits := lims\<rparr>)"
      apply (rule 1(1)[OF r[symmetric] refl cont])
      using False nk len st' 1(3) by auto
    then obtain lims where rec: "readAll_loop st' (k - n) =
       (take (k - n) (drop (soff st + n) (sdata st)), None,
        st\<lparr>soff := soff st + k, slimits := lims\<rparr>)"
      using len st' nk by auto
    have "take n (drop (soff st) (sdata st)) @ take (k - n) (drop (soff st + n) (sdata st))
            = take k (drop (soff st) (sdata st))"
      using nk by (metis add.commute drop_drop le_add_diff_inverse take_add)
    then show ?thesis
      using r bs err st' len cont rec
      by (subst readAll_loop.simps) (auto simp del: readAll_loop.simps)
  qed
qed


lemma readAll_full:
  assumes "0 < k" "soff (stream self) + k \<le> length (sdata (stream self))"
  shows "\<exists>lims. readAll self k =
           (take k (drop (soff (stream self)) (sdata (stream self))), None,
            self\<lparr>stream := (stream self)\<lparr>soff := soff (stream self) + k, slimits := lims\<rparr>,
                 position := position self + int k\<rparr>)"
proof -
  obtain lims where "readAll_loop (stream self) k =
       (take k (drop (soff (stream self)) (sdata (stream self))), None,
        (stream self)\<lparr>soff := soff (stream self) + k, slimits := lims\<rparr>)"
    using readAll_loop_full [OF assms] by blast
  then show ?thesis using assms by (auto simp: readAll_def)
qed

lemma take_drop_map_nth:
  "p + k \<le> length xs \<Longrightarrow> take k (drop p xs) = map (\<lambda>i. xs ! (p + i)) [0..<k]"
  by (auto intro!: nth_equalityI)

lemma looped_bytes_wrap:
  assumes "u < k" "0 < ll"
  shows "map (\<lambda>i. data ! (pos + i)) [0..<u] @ looped_bytes data ls ll ls ll (k - u)
           = looped_bytes data pos u ls ll k"
proof (rule nth_equalityI)
  show "length (map (\<lambda>i. data ! (pos + i)) [0..<u] @ looped_bytes data ls ll ls ll (k - u))
          = length (looped_bytes data pos u ls ll k)"
    using assms by (simp add: looped_bytes_def)
next
  fix i
  assume "i < length (map (\<lambda>i. data ! (pos + i)) [0..<u] @ looped_bytes data ls ll ls ll (k - u))"
  then have ik: "i < k" using assms by (simp add: looped_bytes_def)
  show "(map (\<lambda>i. data ! (pos + i)) [0..<u] @ looped_bytes data ls ll ls ll (k - u)) ! i
          = looped_bytes data pos u ls ll k ! i"
  proof (cases "i < u")
    case True
    then show ?thesis using ik by (simp add: looped_bytes_def nth_append)
  next
    case False
    then have "(i - u - ll) mod ll = (i - u) mod ll" if "\<not> i - u < ll"
      using that by (simp add: le_mod_geq)
    then show ?thesis using False ik assms
      by (auto simp add: looped_bytes_def nth_append)
  qed
qed

lemma Read_loop_spec:
  assumes "looper_ok self"
  shows "\<exists>self'. Read_loop self k out =
           Some (out @ looped_bytes (sdata (stream self)) (nat (position self)) (until_of self)
                         (nat (loopStart self)) (nat (loopEnd self - loopStart self)) k,
                 None, self')
         \<and> looper_ok self' \<and> sdata (stream self') = sdata (stream self)
         \<and> loopStart self' = loopStart self \<and> loopEnd self' = loopEnd self
         \<and> position self' =
              (if k \<le> until_of self then position self + int k
               else loopStart self
                      + int ((k - until_of self - 1) mod nat (loopEnd self - loopStart self)) + 1)
         \<and> activeLoopEnd self' = (if k \<le> until_of self then activeLoopEnd self else loopEnd self)"
  using assms
proof (induction "2 * k + (if until_of self = 0 then 1 else 0)" arbitrary: self k out rule: less_induct)
  case less
  note ok = less.prems
  let ?data = "sdata (stream self)"
  let ?pos = "nat (position self)"
  let ?u = "until_of self"
  let ?ls = "nat (loopStart self)"
  let ?ll = "nat (loopEnd self - loopStart self)"
  have pos: "position self = int (soff (stream self))"
    using ok by (auto simp: looper_ok_def)
  have pos': "?pos = soff (stream self)"
    using pos by simp
  have u_le: "?pos + ?u \<le> length ?data \<or> ?u = 0"
    using ok by (auto simp: looper_ok_def until_of_def)
  show ?case
  proof (cases "k = 0")
    case True
    then show ?thesis using ok
      by (subst Read_loop.simps) (simp add: looped_bytes_def)
  next
    case k0: False
    show ?thesis
    proof (cases "k \<le> ?u")
      case True
      then have fit: "int k \<le> (if activeLoopEnd self - position self < 0 then 0
                             else activeLoopEnd self - position self)"
        using k0 by (auto simp: until_of_def)
      have bound: "soff (stream self) + k \<le> length ?data"
        using True u_le k0 pos by auto
      obtain lims where ra: "readAll self k =
           (take k (drop (soff (stream self)) ?data), None,
            self\<lparr>stream := (stream self)\<lparr>soff := soff (stream self) + k, slimits := lims\<rparr>,
                 position := position self + int k\<rparr>)"
        using readAll_full [of k self] k0 bound by auto
      have bytes: "take k (drop (soff (stream self)) ?data)
                     = looped_bytes ?data ?pos ?u ?ls ?ll k"
        using True bound unfolding looped_bytes_def pos'
        by (subst take_drop_map_nth) auto
      show ?thesis
        apply (subst Read_loop.simps)
        using k0 fit ra bytes True ok pos
        by (auto simp: Let_def looper_ok_def)
    next
      case False
      then have nofit: "\<not> int k \<le> (if activeLoopEnd self - position self < 0 then 0
                             else activeLoopEnd self - position self)"
        and un: "(if activeLoopEnd self - position self < 0 then 0
                             else activeLoopEnd self - position self) = int ?u"
        by (auto simp: until_of_def)
      have ku: "?u < k" using False by simp
      have ll: "0 < ?ll" using ok by (auto simp: looper_ok_def)
      define bs where "bs = map (\<lambda>i. ?data ! (?pos + i)) [0..<?u]"
      have first: "\<exists>lims. (if int ?u > 0 then readAll self (nat (int ?u)) else ([], None, self))
              = (bs, None, self\<lparr>stream := (stream self)\<lparr>soff := soff (stream self) + ?u, slimits := lims\<rparr>,
                               position := position self + int ?u\<rparr>)"
      proof (cases "?u = 0")
        case True
        then show ?thesis
          by (auto simp: bs_def intro!: exI[of _ "slimits (stream self)"])
      next
        case False
        then have "soff (stream self) + ?u \<le> length ?data" using u_le pos' by auto
        then obtain lims where "readAll self ?u =
           (take ?u (drop (soff (stream self)) ?data), None,
            self\<lparr>stream := (stream self)\<lparr>soff := soff (stream self) + ?u, slimits := lims\<rparr>,
                 position := position self + int ?u\<rparr>)"
          using readAll_full [of ?u self] False by auto
        moreover have "take ?u (drop (soff (stream self)) ?data) = bs"
          using \<open>soff (stream self) + ?u \<le> length ?data\<close> unfolding bs_def pos'
          by (subst take_drop_map_nth) auto
        ultimately show ?thesis using False by auto
      qed
      then obtain lims where first': "(if int ?u > 0 then readAll self (nat (int ?u)) else ([], None, self))
              = (bs, None, self\<lparr>stream := (stream self)\<lparr>soff := soff (stream self) + ?u, slimits := lims\<rparr>,
                               position := position self + int ?u\<rparr>)"
        by blast
      define self3 where "self3 = self\<lparr>activeLoopEnd := loopEnd self, position := loopStart self,
               stream := (stream self)\<lparr>slimits := lims, soff := nat (loopStart self)\<rparr>\<rparr>"
      have ls0: "0 \<le> loopStart self" using ok by (simp add: looper_ok_def)
      have step: "Read_loop self k out = Read_loop self3 (k - ?u) (out @ bs)"
        apply (subst Read_loop.simps)
        using k0 nofit ls0 unfolding un Let_def first'
        by (simp add: stream_seek_def Let_def self3_def)
      have ok3: "looper_ok self3" using ok by (auto simp: looper_ok_def self3_def)
      have u3: "until_of self3 = ?ll" by (simp add: until_of_def self3_def)
      have meas: "2 * (k - ?u) + (if until_of self3 = 0 then 1 else 0)
                    < 2 * k + (if ?u = 0 then 1 else 0)"
        using ku ll u3 by auto
      obtain self' where ih: "Read_loop self3 (k - ?u) (out @ bs) =
           Some ((out @ bs) @ looped_bytes (sdata (stream self3)) (nat (position self3)) (until_of self3)
                         (nat (loopStart self3)) (nat (loopEnd self3 - loopStart self3)) (k - ?u),
                 None, self')"
         and ih': "looper_ok self'" "sdata (stream self') = sdata (stream self3)"
          "loopStart self' = loopStart self3" "loopEnd self' = loopEnd self3"
          "position self' =
              (if k - ?u \<le> until_of self3 then position self3 + int (k - ?u)
               else loopStart self3
                      + int ((k - ?u - until_of self3 - 1) mod nat (loopEnd self3 - loopStart self3)) + 1)"
          "activeLoopEnd self' = (if k - ?u \<le> until_of self3 then activeLoopEnd self3 else loopEnd self3)"
        using less.hyps [OF meas ok3, of "out @ bs"] by blast
      have sel3: "sdata (stream self3) = ?data" "position self3 = loopStart self"
        "loopStart self3 = loopStart self" "loopEnd self3 = loopEnd self"
        "activeLoopEnd self3 = loopEnd self"
        by (simp_all add: self3_def)
      have bytes: "bs @ looped_bytes ?data ?ls ?ll ?ls ?ll (k - ?u) = looped_bytes ?data ?pos ?u ?ls ?ll k"
        unfolding bs_def by (rule looped_bytes_wrap [OF ku ll])
      have posf: "position self' = loopStart self + int ((k - ?u - 1) mod ?ll) + 1"
      proof (cases "k - ?u \<le> ?ll")
        case True
        then have "(k - ?u - 1) mod ?ll = k - ?u - 1" using ku ll by simp
        then show ?thesis using ih'(5) True ku unfolding u3 sel3 by simp
      next
        case False
        then have "?ll \<le> k - ?u - 1" and "k - ?u - ?ll - 1 = (k - ?u - 1) - ?ll"
          by simp_all
        then have "(k - ?u - ?ll - 1) mod ?ll = (k - ?u - 1) mod ?ll"
          by (simp add: le_mod_geq)
        then show ?thesis using ih'(5) False unfolding u3 sel3 by simp
      qed
      show ?thesis
        unfolding step ih
        using ih' bytes posf False unfolding sel3 u3
        by auto
    qed
  qed
qed



text \<open>A single \<open>Read\<close> of a looper at rest fills the whole buffer, whatever its length
  and however the source splits its reads.\<close>

lemma Looper_Read_general:
  assumes "looper_ok self"
  shows "\<exists>self'. Looper_Read self buffer =
           Some (looped_bytes (sdata (stream self)) (nat (position self)) (until_of self)
                         (nat (loopStart self)) (nat (loopEnd self - loopStart self)) (length buffer),
                 int (length buffer), None, self')
         \<and> looper_ok self' \<and> sdata (stream self') = sdata (stream self)
         \<and> loopStart self' = loopStart self \<and> loopEnd self' = loopEnd self
         \<and> position self' =
              (if length buffer \<le> until_of self then position self + int (length buffer)
               else loopStart self
                      + int ((length buffer - until_of self - 1) mod nat (loopEnd self - loopStart self)) + 1)
         \<and> activeLoopEnd self' = (if length buffer \<le> until_of self then activeLoopEnd self else loopEnd self)"
proof -
  let ?bytes = "looped_bytes (sdata (stream self)) (nat (position self)) (until_of self)
                         (nat (loopStart self)) (nat (loopEnd self - loopStart self)) (length buffer)"
  obtain self' where a: "Read_loop self (length buffer) [] = Some ([] @ ?bytes, None, self')"
    and b: "looper_ok self' \<and> sdata (stream self') = sdata (stream self)
         \<and> loopStart self' = loopStart self \<and> loopEnd self' = loopEnd self
         \<and> position self' =
              (if length buffer \<le> until_of self then position self + int (length buffer)
               else loopStart self
                      + int ((length buffer - until_of self - 1) mod nat (loopEnd self - loopStart self)) + 1)
         \<and> activeLoopEnd self' = (if length buffer \<le> until_of self then activeLoopEnd self else loopEnd self)"
    using Read_loop_spec [OF assms, of "length buffer" "[]"] by blast
  have len: "length ?bytes = length buffer"
    by (simp add: looped_bytes_def)
  have "Looper_Read self buffer = Some (?bytes, int (length buffer), None, self')"
    unfolding Looper_Read_def using a len by simp
  then show ?thesis using b by blast
qed

lemma scenario_bytes:
  "length data = 32 \<Longrightarrow> looped_bytes data 0 16 0 16 20 = take 16 data @ take 4 data"
proof (rule nth_equalityI)
  assume "length data = 32"
  then show "length (looped_bytes data 0 16 0 16 20) = length (take 16 data @ take 4 data)"
    by (simp add: looped_bytes_def)
next
  fix i
  assume a: "length data = 32" "i < length (looped_bytes data 0 16 0 16 20)"
  then have "i < 20" by (simp add: looped_bytes_def)
  then show "looped_bytes data 0 16 0 16 20 ! i = (take 16 data @ take 4 data) ! i"
    using a(1) by (simp add: looped_bytes_def nth_append)
qed


lemma Looper_Read_scenario:
  assumes "length data = 32" "length buffer = 20"
  shows "\<exists>self'. Looper_Read \<lparr>stream = \<lparr>sdata = data, soff = 0, slimits = lims\<rparr>, position = 0,
                  loopStart = 0, activeLoopEnd = 16, loopEnd = 16\<rparr> buffer
           = Some (take 16 data @ take 4 data, 20, None, self') \<and> position self' = 4"
proof -
  let ?self = "\<lparr>stream = \<lparr>sdata = data, soff = 0, slimits = lims\<rparr>, position = 0,
                  loopStart = 0, activeLoopEnd = 16, loopEnd = 16\<rparr>"
  have ok: "looper_ok ?self" using assms by (simp add: looper_ok_def)
  have u: "until_of ?self = 16" by (simp add: until_of_def)
  obtain self' where a: "Read_loop ?self 20 [] = Some ([] @ looped_bytes data 0 16 0 16 20, None, self')"
    and b: "position self' = 4"
    using Read_loop_spec [OF ok, of 20 "[]"] unfolding u by auto
  have "length (looped_bytes data 0 16 0 16 20) = 20" by (simp add: looped_bytes_def)
  then show ?thesis using a b assms scenario_bytes [OF assms(1)]
    by (simp add: Looper_Read_def)
qed

text \<open>
  Claim C4. For a looper over a 32-byte source with \<open>loopStart = 0\<close>, \<open>loopEnd = 16\<close>,
  \<open>activeLoopEnd = 16\<close> and \<open>position = 0\<close>, a single \<open>Read\<close> with a 20-byte buffer returns
  \<open>n = 20\<close> and no error, the buffer holds the source bytes \<open>[0..16)\<close> followed by the
  source bytes \<open>[0..4)\<close>, and the position is 4 afterwards. More generally, a single
  \<open>Read\<close> of a looper at rest on an in-memory source returns \<open>n = len(buffer)\<close> and no
  error for every buffer length: the buffer holds the bytes of the traversal in progress
  followed by the loop range as many times as the request needs, and the position
  afterwards is where the last traversal stops.
\<close>

theorem Looper_Read_crosses_loop:
  "(length data = 32 \<and> length buffer = 20 \<longrightarrow>
      (\<exists>self'. Looper_Read \<lparr>stream = \<lparr>sdata = data, soff = 0, slimits = lims\<rparr>, position = 0,
                             loopStart = 0, activeLoopEnd = 16, loopEnd = 16\<rparr> buffer
                  = Some (take 16 data @ take 4 data, 20, None, self')
              \<and> position self' = 4))
   \<and> (looper_ok self \<longrightarrow>
      (\<exists>self'. Looper_Read self buffer =
           Some (looped_bytes (sdata (stream self)) (nat (position self)) (until_of self)
                         (nat (loopStart self)) (nat (loopEnd self - loopStart self)) (length buffer),
                 int (length buffer), None, self')
         \<and> looper_ok self' \<and> sdata (stream self') = sdata (stream self)
         \<and> loopStart self' = loopStart self \<and> loopEnd self' = loopEnd self
         \<and> position self' =
              (if length buffer \<le> until_of self then position self + int (length buffer)
               else loopStart self
                      + int ((length buffer - until_of self - 1) mod nat (loopEnd self - loopStart self)) + 1)
         \<and> activeLoopEnd self' = (if length buffer \<le> until_of self then activeLoopEnd self else loopEnd self)))"
  using Looper_Read_scenario [of data buffer lims] Looper_Read_general [of self buffer]
  by blast

theorem Looper_Read_crosses_loop_witness:
  "(\<exists>self'. Looper_Read \<lparr>stream = \<lparr>sdata = map of_nat [0..<32], soff = 0, slimits = [3]\<rparr>,
                         position = 0, loopStart = 0, activeLoopEnd = 16, loopEnd = 16\<rparr>
                (replicate 20 0)
              = Some (map of_nat ([0..<16] @ [0..<4]), 20, None, self')
          \<and> position self' = 4)
   \<and> (\<exists>self'. Looper_Read \<lparr>stream = \<lparr>sdata = map of_nat [0..<16], soff = 8, slimits = [3, 0, 2]\<rparr>,
                         position = 8, loopStart = 4, activeLoopEnd = 12, loopEnd = 12\<rparr>
                (replicate 22 0)
              = Some (map of_nat ([8..<12] @ [4..<12] @ [4..<12] @ [4..<6]), 22, None, self')
          \<and> position self' = 6)"
proof -
  let ?a = "\<lparr>stream = \<lparr>sdata = map of_nat [0..<32], soff = 0, slimits = [3]\<rparr>,
              position = 0, loopStart = 0, activeLoopEnd = 16, loopEnd = 16\<rparr>"
  let ?b = "\<lparr>stream = \<lparr>sdata = map of_nat [0..<16], soff = 8, slimits = [3, 0, 2]\<rparr>,
              position = 8, loopStart = 4, activeLoopEnd = 12, loopEnd = 12\<rparr>"
  note at_a = Looper_Read_crosses_loop [of "map of_nat [0..<32]" "replicate 20 0" "[3]" ?b]
  note at_b = Looper_Read_crosses_loop [of "map of_nat [0..<32]" "replicate 22 0" "[3]" ?b]
  have ok: "looper_ok ?b" by (simp add: looper_ok_def)
  have u: "until_of ?b = 4" by (simp add: until_of_def)
  have bytes_a: "take 16 (map of_nat [0..<32]) @ take 4 (map of_nat [0..<32])
                   = (map of_nat ([0..<16] @ [0..<4]) :: byte list)"
    by (simp add: take_map)
  have bytes_b: "looped_bytes (map of_nat [0..<16]) 8 4 4 8 22
                   = map of_nat ([8..<12] @ [4..<12] @ [4..<12] @ [4..<6])"
    by code_simp
  obtain a' where a: "Looper_Read ?a (replicate 20 0)
        = Some (take 16 (map of_nat [0..<32]) @ take 4 (map of_nat [0..<32]), 20, None, a')"
      "position a' = 4"
    using at_a by auto
  obtain b' where b: "Looper_Read ?b (replicate 22 0)
        = Some (looped_bytes (sdata (stream ?b)) (nat (position ?b)) (until_of ?b)
                  (nat (loopStart ?b)) (nat (loopEnd ?b - loopStart ?b)) (length (replicate 22 (0::byte))),
                int (length (replicate 22 (0::byte))), None, b')"
      "position b' =
         (if length (replicate 22 (0::byte)) \<le> until_of ?b
          then position ?b + int (length (replicate 22 (0::byte)))
          else loopStart ?b
                 + int ((length (replicate 22 (0::byte)) - until_of ?b - 1)
                          mod nat (loopEnd ?b - loopStart ?b)) + 1)"
    using at_b ok by blast
  have "Looper_Read ?b (replicate 22 0)
          = Some (looped_bytes (map of_nat [0..<16]) 8 4 4 8 22, 22, None, b')"
    using b(1) unfolding u by simp
  moreover have "position b' = 6" using b(2) unfolding u by simp
  ultimately show ?thesis using a unfolding bytes_a bytes_b by blast
qed

section \<open>Properties of the circular window\<close>

lemma Get_ok: "window_ok self \<Longrightarrow> Get self = Inr (contents self)"
  by (simp add: Get_def slice_def window_ok_def contents_def)

lemma take_drop_update_append:
  "s \<le> e \<Longrightarrow> e < length xs \<Longrightarrow>
     take (Suc e - s) (drop s (xs[e := v])) = take (e - s) (drop s xs) @ [v]"
  by (simp add: Suc_diff_le take_Suc_conv_app_nth drop_update_swap)

lemma take_append_update_last:
  "m < length (ys @ zs) \<Longrightarrow> length ys = m \<Longrightarrow> take (Suc m) ((ys @ zs)[m := v]) = ys @ [v]"
  by (simp add: take_Suc_conv_app_nth list_update_append)

text \<open>The in-place path of \<open>Push\<close>: the end index is inside the buffer.\<close>

lemma Push_in_place:
  assumes "s \<le> e" "e < length xs"
  shows "Push \<lparr>winSize = int N, wbuffer = xs, startIndex = int s, endIndex = int e\<rparr> v =
           Inr \<lparr>winSize = int N, wbuffer = xs[e := v],
                startIndex = (if N = e - s then int s + 1 else int s), endIndex = int e + 1\<rparr>"
proof -
  obtain b where b: "(N = e - s) = b" by simp
  have c: "(int e < int (length xs)) = True" "(int e < 0) = False"
    "(int N = int e - int s) = b" "nat (int e) = e"
    using assms b by auto
  show ?thesis
    unfolding Push_def
    by (cases b) (simp_all only: circularWindow.simps Let_def c b if_True if_False simp_thms)
qed

text \<open>The compaction path: the end index is the end of the buffer.\<close>

lemma Push_compact_full:
  assumes "s < length xs" "N = length xs - s"
  shows "Push \<lparr>winSize = int N, wbuffer = xs, startIndex = int s, endIndex = int (length xs)\<rparr> v =
           Inr \<lparr>winSize = int N, wbuffer = (drop (Suc s) xs @ drop (N - 1) xs)[N - 1 := v],
                startIndex = 0, endIndex = int N\<rparr>"
proof -
  let ?src = "drop (Suc s) xs"
  have sl: "slice xs (int s + 1) (int (length xs)) = Inr ?src"
    using assms by (simp add: slice_def nat_add_distrib)
  have "min (length xs) (length ?src) = N - 1" "take (N - 1) ?src = ?src"
    using assms by simp_all
  then have b1: "go_copy xs ?src = ?src @ drop (N - 1) xs"
    unfolding go_copy_def by (simp del: length_drop)
  have c: "(int (length xs) < int (length xs)) = False"
    "(int N = int (length xs) - int s) = True"
    "(int N - 1 < 0 \<or> int (length (?src @ drop (N - 1) xs)) \<le> int N - 1) = False"
    "nat (int N - 1) = N - 1"
    using assms by auto
  show ?thesis
    unfolding Push_def
    by (simp only: circularWindow.simps Let_def c sl b1 if_True if_False sum.case)
qed

lemma Push_compact_not_full:
  assumes "s \<le> length xs" "length xs - s < N" "N \<le> length xs"
  shows "Push \<lparr>winSize = int N, wbuffer = xs, startIndex = int s, endIndex = int (length xs)\<rparr> v =
           Inr \<lparr>winSize = int N,
                wbuffer = (drop s xs @ drop (length xs - s) xs)[length xs - s := v],
                startIndex = 0, endIndex = int (length xs - s) + 1\<rparr>"
proof -
  let ?src = "drop s xs"
  have sl: "slice xs (int s) (int (length xs)) = Inr ?src"
    using assms by (simp add: slice_def)
  have b1: "go_copy xs ?src = ?src @ drop (length xs - s) xs"
    unfolding go_copy_def by simp
  have c: "(int (length xs) < int (length xs)) = False"
    "(int N = int (length xs) - int s) = False"
    "(int (length xs) - int s < 0
        \<or> int (length (?src @ drop (length xs - s) xs)) \<le> int (length xs) - int s) = False"
    "nat (int (length xs) - int s) = length xs - s"
    "int (length xs) - int s + 1 = int (length xs - s) + 1"
    using assms by auto
  show ?thesis
    unfolding Push_def
    by (simp only: circularWindow.simps Let_def c sl b1 if_True if_False sum.case)
qed

text \<open>One push appends the value and, if that makes more than \<open>winSize\<close> values, drops
  the oldest.\<close>

lemma Push_step:
  assumes "window_ok self"
  shows "\<exists>self'. Push self v = Inr self' \<and> window_ok self' \<and> winSize self' = winSize self
           \<and> length (wbuffer self') = length (wbuffer self)
           \<and> contents self' =
               drop (length (contents self @ [v]) - nat (winSize self)) (contents self @ [v])"
proof -
  obtain N xs s e
    where self: "self = \<lparr>winSize = int N, wbuffer = xs, startIndex = int s, endIndex = int e\<rparr>"
    and bounds: "1 \<le> N" "N \<le> length xs" "s \<le> e" "e \<le> length xs" "e - s \<le> N"
  proof -
    have "self = \<lparr>winSize = int (nat (winSize self)), wbuffer = wbuffer self,
                   startIndex = int (nat (startIndex self)), endIndex = int (nat (endIndex self))\<rparr>"
      using assms by (simp add: window_ok_def)
    moreover have "1 \<le> nat (winSize self)" "nat (winSize self) \<le> length (wbuffer self)"
      "nat (startIndex self) \<le> nat (endIndex self)" "nat (endIndex self) \<le> length (wbuffer self)"
      "nat (endIndex self) - nat (startIndex self) \<le> nat (winSize self)"
      using assms by (auto simp: window_ok_def)
    ultimately show ?thesis using that by blast
  qed
  let ?cs = "take (e - s) (drop s xs)"
  have c: "contents self = ?cs" "winSize self = int N" "wbuffer self = xs"
    by (simp_all add: contents_def self)
  have goal: "\<exists>self'. Push self v = Inr self' \<and> window_ok self' \<and> winSize self' = int N
           \<and> length (wbuffer self') = length xs
           \<and> contents self' = drop (length (?cs @ [v]) - N) (?cs @ [v])"
  proof (cases "e < length xs")
    case True
    let ?r = "\<lparr>winSize = int N, wbuffer = xs[e := v],
                startIndex = (if N = e - s then int s + 1 else int s), endIndex = int e + 1\<rparr>"
    have push: "Push self v = Inr ?r"
      unfolding self using bounds True by (rule_tac Push_in_place) simp_all
    have app: "take (Suc e - s) (drop s (xs[e := v])) = ?cs @ [v]"
      using take_drop_update_append [of s e xs v] bounds True by simp
    have cont: "contents ?r = drop (length (?cs @ [v]) - N) (?cs @ [v])"
    proof (cases "N = e - s")
      case full: True
      then have se: "s < e" using bounds by simp
      have "contents ?r = take (Suc e - Suc s) (drop (Suc s) (xs[e := v]))"
        using full by (simp add: contents_def nat_add_distrib)
      also have "\<dots> = take (e - Suc s) (drop (Suc s) xs) @ [v]"
        using take_drop_update_append [of "Suc s" e xs v] se True by simp
      also have "\<dots> = drop 1 (?cs @ [v])"
        using se True by (simp add: drop_take)
      finally show ?thesis using full bounds True by simp
    next
      case nf: False
      then have "contents ?r = take (Suc e - s) (drop s (xs[e := v]))"
        using bounds by (simp add: contents_def nat_add_distrib Suc_diff_le)
      then show ?thesis using app nf bounds True by simp
    qed
    have ok: "window_ok ?r"
      using bounds True by (auto simp: window_ok_def)
    show ?thesis
      using push cont ok by (intro exI [of _ ?r]) simp
  next
    case False
    then have eL: "e = length xs" using bounds by simp
    show ?thesis
    proof (cases "N = e - s")
      case full: True
      then have se: "s < length xs" using bounds eL by simp
      let ?r = "\<lparr>winSize = int N, wbuffer = (drop (Suc s) xs @ drop (N - 1) xs)[N - 1 := v],
                startIndex = 0, endIndex = int N\<rparr>"
      have push: "Push self v = Inr ?r"
        unfolding self eL using se full eL by (rule_tac Push_compact_full) simp_all
      have l: "length (drop (Suc s) xs) = N - 1" using full eL by simp
      have "N - 1 < length (drop (Suc s) xs @ drop (N - 1) xs)"
        using bounds l by simp
      then have "take (Suc (N - 1)) ((drop (Suc s) xs @ drop (N - 1) xs)[N - 1 := v])
              = drop (Suc s) xs @ [v]"
        using l by (rule take_append_update_last)
      moreover have "?cs = drop s xs" using eL by simp
      moreover have "length (drop s xs @ [v]) - N = 1" using full eL se by simp
      ultimately have cont: "contents ?r = drop (length (?cs @ [v]) - N) (?cs @ [v])"
        using bounds se by (simp add: contents_def)
      have ok: "window_ok ?r"
        using bounds l by (simp add: window_ok_def)
      show ?thesis
        using push cont ok l bounds by (intro exI [of _ ?r]) simp
    next
      case nf: False
      then have lt: "length xs - s < N" using bounds eL by simp
      let ?m = "length xs - s"
      let ?r = "\<lparr>winSize = int N, wbuffer = (drop s xs @ drop ?m xs)[?m := v],
                startIndex = 0, endIndex = int ?m + 1\<rparr>"
      have push: "Push self v = Inr ?r"
        unfolding self eL using bounds lt eL by (rule_tac Push_compact_not_full) simp_all
      have "?m < length (drop s xs @ drop ?m xs)"
        using bounds lt by simp
      then have "take (Suc ?m) ((drop s xs @ drop ?m xs)[?m := v]) = drop s xs @ [v]"
        by (rule take_append_update_last) simp
      moreover have "?cs = drop s xs" using eL by simp
      moreover have "length (drop s xs @ [v]) - N = 0" using lt by simp
      ultimately have cont: "contents ?r = drop (length (?cs @ [v]) - N) (?cs @ [v])"
        by (simp add: contents_def nat_add_distrib)
      have "int ?m + 1 \<le> int (length xs)" "int ?m + 1 \<le> int N" "1 \<le> int N"
        using bounds lt by linarith+
      then have ok: "window_ok ?r"
        using bounds by (simp add: window_ok_def)
      show ?thesis
        using push cont ok bounds by (intro exI [of _ ?r]) simp
    qed
  qed
  show ?thesis using goal unfolding c by simp
qed

lemma last_values_append:
  "drop (length (drop (length xs - N) xs @ ys) - N) (drop (length xs - N) xs @ ys)
     = drop (length (xs @ ys) - N) (xs @ (ys :: 'a list))"
proof (cases "length xs \<le> N")
  case True
  then show ?thesis by simp
next
  case False
  then show ?thesis by (simp add: algebra_simps)
qed

lemma push_all_contents:
  "window_ok self \<Longrightarrow>
     \<exists>self'. push_all self vs = Inr self' \<and> window_ok self' \<and> winSize self' = winSize self
        \<and> length (wbuffer self') = length (wbuffer self)
        \<and> contents self' =
            drop (length (contents self @ vs) - nat (winSize self)) (contents self @ vs)"
proof (induction vs arbitrary: self)
  case Nil
  then have "length (contents self) \<le> nat (winSize self)"
    by (auto simp: window_ok_def contents_def)
  then show ?case using Nil by simp
next
  case (Cons v vs)
  obtain self1 where p: "Push self v = Inr self1" and ok1: "window_ok self1"
    and w1: "winSize self1 = winSize self" and l1: "length (wbuffer self1) = length (wbuffer self)"
    and c1: "contents self1 =
               drop (length (contents self @ [v]) - nat (winSize self)) (contents self @ [v])"
    using Push_step [OF Cons.prems, of v] by blast
  obtain self' where pa: "push_all self1 vs = Inr self'" and ok': "window_ok self'"
    and w': "winSize self' = winSize self1" and l': "length (wbuffer self') = length (wbuffer self1)"
    and c': "contents self' =
               drop (length (contents self1 @ vs) - nat (winSize self1)) (contents self1 @ vs)"
    using Cons.IH [OF ok1] by blast
  have "contents self' =
          drop (length ((contents self @ [v]) @ vs) - nat (winSize self)) ((contents self @ [v]) @ vs)"
    unfolding c' w1 c1 by (rule last_values_append)
  then have "contents self' =
          drop (length (contents self @ v # vs) - nat (winSize self)) (contents self @ v # vs)"
    by simp
  then show ?case using p pa ok' w' w1 l' l1 by simp
qed

text \<open>
  Claim C6. For a window of capacity \<open>winSize\<close> (at least 1, at most the length of its
  buffer), starting empty, and every sequence of pushed values: no push panics, and \<open>Get\<close>
  returns the last \<open>winSize\<close> pushed values in push order, that is all the values pushed
  while there are at most \<open>winSize\<close> of them and exactly \<open>winSize\<close> values from then on.
  \<open>Push_step\<close> covers the in-place path and both compaction paths.
\<close>

theorem circularWindow_last_values:
  assumes "1 \<le> winSize w" "winSize w \<le> int (length (wbuffer w))"
  shows "\<exists>w'. push_all (Reset w) vs = Inr w'
           \<and> Get w' = Inr (drop (length vs - nat (winSize w)) vs)
           \<and> (length vs \<le> nat (winSize w) \<longrightarrow> Get w' = Inr vs)
           \<and> (nat (winSize w) \<le> length vs \<longrightarrow>
                 length (drop (length vs - nat (winSize w)) vs) = nat (winSize w))"
proof -
  have ok: "window_ok (Reset w)" using assms by (simp add: window_ok_def Reset_def)
  have c0: "contents (Reset w) = []" by (simp add: contents_def Reset_def)
  have w0: "winSize (Reset w) = winSize w" by (simp add: Reset_def)
  obtain w' where "push_all (Reset w) vs = Inr w'" "window_ok w'"
    "contents w' = drop (length vs - nat (winSize w)) vs"
    using push_all_contents [OF ok, of vs] unfolding c0 w0 by auto
  then show ?thesis using Get_ok [of w'] by auto
qed

theorem circularWindow_last_values_witness:
  "(\<exists>w'. push_all (Reset \<lparr>winSize = 2, wbuffer = [0, 0, 0], startIndex = 0, endIndex = 0\<rparr>)
            [1, 2, 3, 4, 5] = Inr w' \<and> Get w' = Inr [4, 5])
   \<and> (\<exists>w'. push_all (Reset \<lparr>winSize = 2, wbuffer = [0, 0, 0], startIndex = 0, endIndex = 0\<rparr>)
            [1] = Inr w' \<and> Get w' = Inr [1])"
  using circularWindow_last_values
      [of "\<lparr>winSize = 2, wbuffer = [0, 0, 0], startIndex = 0, endIndex = 0\<rparr>" "[1, 2, 3, 4, 5]"]
    circularWindow_last_values
      [of "\<lparr>winSize = 2, wbuffer = [0, 0, 0], startIndex = 0, endIndex = 0\<rparr>" "[1]"]
  by simp

text \<open>With a buffer of 3 values and capacity 2, the fourth push takes the compaction path.\<close>

lemma push_all_compaction_example:
  "push_all (Reset \<lparr>winSize = 2, wbuffer = [0, 0, 0], startIndex = 0, endIndex = 0\<rparr>) [1, 2, 3, 4]
     = Inr \<lparr>winSize = 2, wbuffer = [3, 4, 3], startIndex = 0, endIndex = 2\<rparr>"
  by (simp add: Reset_def Push_def slice_def go_copy_def)

section \<open>Properties of the SpeedShifter\<close>

lemma add_sample_served:
  "add_sample s d b = Inr (s1, d1, b1) \<Longrightarrow> b1 = b + 4"
  by (auto simp: add_sample_def Let_def split: sum.splits)

text \<open>\<open>bytesServed\<close> only ever grows by one sample of 4 bytes.\<close>

lemma process_loop_served:
  "process_loop s rb d b = Inr (s', rb', d', b') \<Longrightarrow> b mod 4 = 0 \<Longrightarrow> b' mod 4 = 0"
proof (induction s rb d b arbitrary: s' rb' d' b' rule: process_loop.induct)
  case (1 s rb d b)
  show ?case
  proof (cases "length rb \<ge> 4 \<and> b < int (length d)")
    case True
    then obtain s1 d1 b1 s2 rb2
      where a: "(if fracPos s < 1.0 then add_sample s d b else Inr (s, d, b)) = Inr (s1, d1, b1)"
      and v: "advance_loop s1 rb = Inr (s2, rb2)"
      and l: "process_loop s2 rb2 d1 b1 = Inr (s', rb', d', b')"
      using "1.prems"(1) by (subst (asm) process_loop.simps) (auto split: sum.splits prod.splits)
    have "b1 = b + 4 \<or> b1 = b"
      using a add_sample_served by (auto split: if_splits)
    then have "b1 mod 4 = 0" using "1.prems"(2) by auto
    then show ?thesis
      using "1.IH" [OF True a refl refl v refl l] by simp
  next
    case False
    then show ?thesis using "1.prems" by (subst (asm) process_loop.simps) auto
  qed
qed

lemma singleRead_served:
  "singleRead self dst = Inr (dst', n, err, self') \<Longrightarrow> n mod 4 = 0"
  unfolding singleRead_def Let_def
  by (auto split: if_splits prod.splits sum.splits dest: process_loop_served)

lemma SpeedShifter_Read_loop_served:
  "SpeedShifter_Read_loop self dst b = Inr (dst', n, err, self') \<Longrightarrow> b mod 4 = 0 \<Longrightarrow> n mod 4 = 0"
proof (induction self dst b arbitrary: dst' n err self' rule: SpeedShifter_Read_loop.induct)
  case (1 self dst b)
  show ?case
  proof (cases "b < int (length dst)")
    case True
    then obtain tail tail' m e s1 where s: "slice dst b (int (length dst)) = Inr tail"
      and r: "singleRead self tail = Inr (tail', m, e, s1)"
      and l: "(if e \<noteq> None then Inr (take (nat b) dst @ tail', b + m, e, s1)
               else SpeedShifter_Read_loop s1 (take (nat b) dst @ tail') (b + m))
              = Inr (dst', n, err, self')"
      using "1.prems"(1)
      by (subst (asm) SpeedShifter_Read_loop.simps) (auto split: sum.splits prod.splits)
    have m: "(b + m) mod 4 = 0"
      using singleRead_served [OF r] "1.prems"(2) by presburger
    show ?thesis
    proof (cases "e \<noteq> None")
      case True
      then show ?thesis using l m by simp
    next
      case False
      then have "SpeedShifter_Read_loop s1 (take (nat b) dst @ tail') (b + m) = Inr (dst', n, err, self')"
        using l by simp
      then show ?thesis
        using "1.IH" [OF True s r refl refl refl False _ m] by simp
    qed
  next
    case False
    then show ?thesis using "1.prems" by (subst (asm) SpeedShifter_Read_loop.simps) auto
  qed
qed

text \<open>
  Claim C5. Whatever the shifter, the destination buffer and its length, the speed and
  the way the source splits its reads: when \<open>Read\<close> returns (it does not panic), the byte
  count it returns is a multiple of 4, and so is the count of every \<open>singleRead\<close>.
  (\<open>Read\<close> is a total function of the model: its loop ends on every source.)
\<close>

theorem SpeedShifter_Read_multiple_of_4:
  "(SpeedShifter_Read self dst = Inr (dst', n, err, self') \<longrightarrow> n mod 4 = 0)
   \<and> (singleRead self dst = Inr (dst'', m, err', self'') \<longrightarrow> m mod 4 = 0)"
proof -
  have "n mod 4 = 0" if "SpeedShifter_Read self dst = Inr (dst', n, err, self')"
    using that unfolding SpeedShifter_Read_def Let_def
    by (auto split: sum.splits prod.splits dest: SpeedShifter_Read_loop_served)
  then show ?thesis using singleRead_served by blast
qed

lemma push_both_step:
  assumes "window_ok (leftWindow s)" "window_ok (rightWindow s)"
  shows "\<exists>lw rw. push_both s l r = Inr (s\<lparr>leftWindow := lw, rightWindow := rw\<rparr>)
           \<and> window_ok lw \<and> window_ok rw
           \<and> winSize lw = winSize (leftWindow s) \<and> winSize rw = winSize (rightWindow s)
           \<and> contents lw = drop (length (contents (leftWindow s) @ [l]) - nat (winSize (leftWindow s)))
                               (contents (leftWindow s) @ [l])
           \<and> contents rw = drop (length (contents (rightWindow s) @ [r]) - nat (winSize (rightWindow s)))
                               (contents (rightWindow s) @ [r])"
proof -
  obtain lw where l: "Push (leftWindow s) l = Inr lw" "window_ok lw"
    "winSize lw = winSize (leftWindow s)"
    "contents lw = drop (length (contents (leftWindow s) @ [l]) - nat (winSize (leftWindow s)))
                               (contents (leftWindow s) @ [l])"
    using Push_step [OF assms(1), of l] by blast
  obtain rw where r: "Push (rightWindow s) r = Inr rw" "window_ok rw"
    "winSize rw = winSize (rightWindow s)"
    "contents rw = drop (length (contents (rightWindow s) @ [r]) - nat (winSize (rightWindow s)))
                               (contents (rightWindow s) @ [r])"
    using Push_step [OF assms(2), of r] by blast
  have "push_both s l r = Inr (s\<lparr>leftWindow := lw, rightWindow := rw\<rparr>)"
    by (simp add: push_both_def l(1) r(1))
  then show ?thesis using l r by blast
qed

lemma push_zeros_step:
  assumes "window_ok (leftWindow s)" "window_ok (rightWindow s)"
  shows "\<exists>lw rw. push_zeros n s = Inr (s\<lparr>leftWindow := lw, rightWindow := rw\<rparr>)
           \<and> window_ok lw \<and> window_ok rw
           \<and> winSize lw = winSize (leftWindow s) \<and> winSize rw = winSize (rightWindow s)
           \<and> contents lw = drop (length (contents (leftWindow s) @ replicate n 0) - nat (winSize (leftWindow s)))
                               (contents (leftWindow s) @ replicate n 0)
           \<and> contents rw = drop (length (contents (rightWindow s) @ replicate n 0) - nat (winSize (rightWindow s)))
                               (contents (rightWindow s) @ replicate n 0)"
  using assms
proof (induction n arbitrary: s)
  case 0
  have "length (contents (leftWindow s)) \<le> nat (winSize (leftWindow s))"
    "length (contents (rightWindow s)) \<le> nat (winSize (rightWindow s))"
    using 0 by (auto simp: window_ok_def contents_def)
  then show ?case using 0
    by (intro exI [of _ "leftWindow s"] exI [of _ "rightWindow s"]) simp
next
  case (Suc n)
  obtain lw rw where p: "push_both s 0 0 = Inr (s\<lparr>leftWindow := lw, rightWindow := rw\<rparr>)"
    and ok: "window_ok lw" "window_ok rw"
    and w: "winSize lw = winSize (leftWindow s)" "winSize rw = winSize (rightWindow s)"
    and c: "contents lw = drop (length (contents (leftWindow s) @ [0]) - nat (winSize (leftWindow s)))
                               (contents (leftWindow s) @ [0])"
       "contents rw = drop (length (contents (rightWindow s) @ [0]) - nat (winSize (rightWindow s)))
                               (contents (rightWindow s) @ [0])"
    using push_both_step [OF Suc.prems, of 0 0] by blast
  let ?s1 = "s\<lparr>leftWindow := lw, rightWindow := rw\<rparr>"
  have ok1: "window_ok (leftWindow ?s1)" "window_ok (rightWindow ?s1)" using ok by simp_all
  obtain lw' rw' where p': "push_zeros n ?s1 = Inr (?s1\<lparr>leftWindow := lw', rightWindow := rw'\<rparr>)"
    and ok': "window_ok lw'" "window_ok rw'"
    and w': "winSize lw' = winSize lw" "winSize rw' = winSize rw"
    and c': "contents lw' = drop (length (contents lw @ replicate n 0) - nat (winSize lw))
                               (contents lw @ replicate n 0)"
       "contents rw' = drop (length (contents rw @ replicate n 0) - nat (winSize rw))
                               (contents rw @ replicate n 0)"
    using Suc.IH [OF ok1] by auto
  have cl: "contents lw' = drop (length (contents (leftWindow s) @ replicate (Suc n) 0) - nat (winSize (leftWindow s)))
                               (contents (leftWindow s) @ replicate (Suc n) 0)"
    unfolding c'(1) c(1) w(1)
    using last_values_append [of "contents (leftWindow s) @ [0]" "nat (winSize (leftWindow s))" "replicate n 0"]
    by (simp add: replicate_app_Cons_same)
  have cr: "contents rw' = drop (length (contents (rightWindow s) @ replicate (Suc n) 0) - nat (winSize (rightWindow s)))
                               (contents (rightWindow s) @ replicate (Suc n) 0)"
    unfolding c'(2) c(2) w(2)
    using last_values_append [of "contents (rightWindow s) @ [0]" "nat (winSize (rightWindow s))" "replicate n 0"]
    by (simp add: replicate_app_Cons_same)
  have "push_zeros (Suc n) s = Inr (s\<lparr>leftWindow := lw', rightWindow := rw'\<rparr>)"
    using p p' by simp
  then show ?case using ok' w' w cl cr by (intro exI [of _ lw'] exI [of _ rw']) simp
qed

lemma GetSampleAsF64_ok:
  "length bs = 4 \<Longrightarrow> \<exists>l r. GetSampleAsF64_real bs = Inr (l, r)"
  by (simp add: GetSampleAsF64_real_def GetSampleAsI16_def Let_def)

text \<open>What \<open>internalReset\<close> does to a shifter as the constructor builds it: both counters
  are zeroed, both windows hold \<open>windowSize/2 - 1\<close> zeros and then the sample read from the
  source (normalized; zero when the read is short), the source has been read once, and
  every other field, \<open>fracPos\<close> among them, is as before.\<close>

lemma internalReset_spec:
  assumes "shifter_ok s"
  shows "\<exists>s'. internalReset s = Inr s'
           \<and> leftoverBytes s' = 0 \<and> lookaheadBytes s' = 0
           \<and> Get (leftWindow s') =
                 Inr (replicate (nat (go_quot (windowSize s) 2 - 1)) 0
                        @ [fst (reset_sample (fst (reader_read (source s) 4)))])
           \<and> Get (rightWindow s') =
                 Inr (replicate (nat (go_quot (windowSize s) 2 - 1)) 0
                        @ [snd (reset_sample (fst (reader_read (source s) 4)))])
           \<and> source s' = snd (snd (reader_read (source s) 4))
           \<and> fracPos s' = fracPos s \<and> speed s' = speed s \<and> windowSize s' = windowSize s
           \<and> auxReadBuffer s' = auxReadBuffer s \<and> shifter_ok s'"
proof -
  let ?k = "nat (go_quot (windowSize s) 2 - 1)"
  let ?N = "nat (windowSize s)"
  define s1 where "s1 = s\<lparr>leftoverBytes := 0, lookaheadBytes := 0,
                 leftWindow := Reset (leftWindow s), rightWindow := Reset (rightWindow s)\<rparr>"
  have kN: "Suc ?k \<le> ?N"
    using assms by (auto simp: shifter_ok_def go_quot_def sgn_if)
  have ok1: "window_ok (leftWindow s1)" "window_ok (rightWindow s1)"
    using assms by (auto simp: shifter_ok_def window_ok_def Reset_def s1_def)
  have c1: "contents (leftWindow s1) = []" "contents (rightWindow s1) = []"
    "winSize (leftWindow s1) = windowSize s" "winSize (rightWindow s1) = windowSize s"
    using assms by (auto simp: shifter_ok_def contents_def Reset_def s1_def)
  obtain lw rw where z: "push_zeros ?k s1 = Inr (s1\<lparr>leftWindow := lw, rightWindow := rw\<rparr>)"
    and ok2: "window_ok lw" "window_ok rw"
    and w2: "winSize lw = windowSize s" "winSize rw = windowSize s"
    and c2: "contents lw = replicate ?k 0" "contents rw = replicate ?k 0"
    using push_zeros_step [OF ok1, of ?k] kN unfolding c1 by auto
  define s2 where "s2 = s1\<lparr>leftWindow := lw, rightWindow := rw\<rparr>"
  obtain bs err src' where rd: "reader_read (source s) 4 = (bs, err, src')"
    by (cases "reader_read (source s) 4") auto
  obtain l r where lr: "reset_sample bs = (l, r)" by (cases "reset_sample bs") auto
  define s3 where "s3 = s2\<lparr>source := src'\<rparr>"
  have ok3: "window_ok (leftWindow s3)" "window_ok (rightWindow s3)"
    using ok2 by (simp_all add: s3_def s2_def)
  have sel3: "leftWindow s3 = lw" "rightWindow s3 = rw"
    by (simp_all add: s3_def s2_def)
  obtain lw' rw' where p: "push_both s3 l r = Inr (s3\<lparr>leftWindow := lw', rightWindow := rw'\<rparr>)"
    and ok4: "window_ok lw'" "window_ok rw'"
    and w4: "winSize lw' = windowSize s" "winSize rw' = windowSize s"
    and c4: "contents lw' = replicate ?k 0 @ [l]" "contents rw' = replicate ?k 0 @ [r]"
    using push_both_step [OF ok3, of l r] kN c2 w2 unfolding sel3 by auto
  have last: "(if length bs = 4
               then (case GetSampleAsF64_real bs of Inl p \<Rightarrow> Inl p
                     | Inr (left, right) \<Rightarrow> push_both s3 left right)
               else push_both s3 0 0) = push_both s3 l r"
  proof (cases "length bs = 4")
    case True
    then obtain l' r' where "GetSampleAsF64_real bs = Inr (l', r')"
      using GetSampleAsF64_ok by blast
    then show ?thesis using True lr by (simp add: reset_sample_def)
  next
    case False
    then show ?thesis using lr by (simp add: reset_sample_def)
  qed
  have src2: "source s2 = source s" by (simp add: s2_def s1_def)
  have ws1: "windowSize s1 = windowSize s" by (simp add: s1_def)
  have "internalReset s =
          (case push_zeros ?k s1 of
             Inl p \<Rightarrow> Inl p
           | Inr self2 \<Rightarrow>
               (case reader_read (source self2) 4 of
                  (bs, err, src') \<Rightarrow>
                    let self3 = self2\<lparr>source := src'\<rparr>
                    in if length bs = 4 then
                         (case GetSampleAsF64_real bs of
                            Inl p \<Rightarrow> Inl p
                          | Inr (left, right) \<Rightarrow> push_both self3 left right)
                       else push_both self3 0 0))"
    unfolding internalReset_def Let_def s1_def [symmetric] ws1 ..
  also have "\<dots> = (if length bs = 4
               then (case GetSampleAsF64_real bs of Inl p \<Rightarrow> Inl p
                     | Inr (left, right) \<Rightarrow> push_both s3 left right)
               else push_both s3 0 0)"
    unfolding z s2_def [symmetric]
    by (simp only: sum.case src2 rd prod.case Let_def s3_def [symmetric])
  also have "\<dots> = Inr (s3\<lparr>leftWindow := lw', rightWindow := rw'\<rparr>)"
    unfolding last p ..
  finally have res: "internalReset s = Inr (s3\<lparr>leftWindow := lw', rightWindow := rw'\<rparr>)" .
  have frame: "leftoverBytes s3 = 0" "lookaheadBytes s3 = 0" "source s3 = src'"
    "fracPos s3 = fracPos s" "speed s3 = speed s" "windowSize s3 = windowSize s"
    "auxReadBuffer s3 = auxReadBuffer s"
    by (simp_all add: s3_def s2_def s1_def)
  have len: "windowSize s \<le> int (length (wbuffer lw'))"
    "windowSize s \<le> int (length (wbuffer rw'))"
    using ok4 w4 by (auto simp: window_ok_def)
  show ?thesis
    unfolding res
    using Get_ok [OF ok4(1)] Get_ok [OF ok4(2)] c4 w4 rd lr assms len frame
    by (simp add: shifter_ok_def)
qed

subsection \<open>The example shifter\<close>

lemma ex_new_constructed:
  "NewSpeedShifter (AlsoSeeker \<lparr>sdata = ex_data, soff = 0, slimits = []\<rparr>) (1 / 2) 2 ex_linear
     = Inr ex_new"
  by (simp add: NewSpeedShifter_def internalReset_def go_quot_def Reset_def reader_read_def
        stream_read_def ex_data_def GetSampleAsF64_real_def GetSampleAsI16_def NormalizeF64_real_def
        push_both_def Push_def ex_new_def Let_def)

lemma ex_new_Read:
  "(case SpeedShifter_Read ex_new (replicate 6 9) of
      Inr (dst, n, err, self') \<Rightarrow> dst = [0, 0, 0, 0, 9, 9] \<and> n = 4 \<and> err = None
    | Inl _ \<Rightarrow> False)"
  by code_simp

lemma ex_new_singleRead:
  "(case singleRead ex_new (replicate 4 9) of
      Inr (dst, n, err, self') \<Rightarrow> dst = [0, 0, 0, 0] \<and> n = 4 \<and> err = None
    | Inl _ \<Rightarrow> False)"
  by code_simp

lemma ex_played_fields:
  "source ex_played = AlsoSeeker \<lparr>sdata = ex_data, soff = 12, slimits = []\<rparr>
   \<and> fracPos ex_played = 1 / 2 \<and> leftoverBytes ex_played = 4 \<and> lookaheadBytes ex_played = 4
   \<and> Get (leftWindow ex_played) = Inr [256 / 32767, 768]
   \<and> Get (rightWindow ex_played) = Inr [512 / 32767, 1024]
   \<and> auxReadBuffer ex_played = [0, 3, 0, 4, 0, 5, 0, 6]"
  by code_simp

text \<open>At the example shifter a 6-byte buffer is cut to 4 bytes and one sample is served.\<close>

theorem SpeedShifter_Read_multiple_of_4_witness:
  "(\<exists>dst' n err self'. SpeedShifter_Read ex_new (replicate 6 9) = Inr (dst', n, err, self')
       \<and> n mod 4 = 0)
   \<and> (\<exists>dst' n err self'. singleRead ex_new (replicate 4 9) = Inr (dst', n, err, self')
       \<and> n mod 4 = 0)"
proof -
  obtain d1 n1 e1 s1 where r1: "SpeedShifter_Read ex_new (replicate 6 9) = Inr (d1, n1, e1, s1)"
    using ex_new_Read by (auto split: sum.splits)
  obtain d2 n2 e2 s2 where r2: "singleRead ex_new (replicate 4 9) = Inr (d2, n2, e2, s2)"
    using ex_new_singleRead by (auto split: sum.splits)
  have "n1 mod 4 = 0"
    using SpeedShifter_Read_multiple_of_4 [of ex_new "replicate 6 9" d1 n1 e1 s1] r1 by blast
  moreover have "n2 mod 4 = 0"
    using SpeedShifter_Read_multiple_of_4 [of ex_new "replicate 4 9" _ _ _ _ d2 n2 e2 s2] r2
    by blast
  ultimately show ?thesis using r1 r2 by auto
qed

subsection \<open>Seek\<close>

lemma push_both_fracPos: "push_both s l r = Inr s' \<Longrightarrow> fracPos s' = fracPos s"
  by (auto simp: push_both_def split: sum.splits)

lemma push_zeros_fracPos: "push_zeros n s = Inr s' \<Longrightarrow> fracPos s' = fracPos s"
proof (induction n arbitrary: s)
  case 0
  then show ?case by simp
next
  case (Suc n)
  then show ?case
    by (auto split: sum.splits dest!: push_both_fracPos)
qed

text \<open>\<open>internalReset\<close> never assigns \<open>fracPos\<close>, and so neither does \<open>Seek\<close>.\<close>

lemma internalReset_fracPos: "internalReset s = Inr s' \<Longrightarrow> fracPos s' = fracPos s"
  unfolding internalReset_def Let_def
  by (auto split: sum.splits prod.splits if_splits
           dest!: push_both_fracPos push_zeros_fracPos)

lemma SpeedShifter_Seek_fracPos:
  "SpeedShifter_Seek self offset whence = Inr (pos, err, self') \<Longrightarrow> fracPos self' = fracPos self"
  unfolding SpeedShifter_Seek_def
  by (auto split: if_splits io_reader.splits prod.splits sum.splits dest!: internalReset_fracPos)

text \<open>The example shifter, after a \<open>Read\<close> that leaves \<open>fracPos = 1/2\<close>, is sought to the
  start: the seek succeeds, the counters are zero and the windows hold the first sample
  again (no zeros before it, as \<open>windowSize/2 - 1 = 0\<close>), but \<open>fracPos\<close> is still \<open>1/2\<close>,
  where the freshly constructed shifter has \<open>fracPos = 0\<close>.\<close>

lemma Seek_after_Read_keeps_fracPos:
  "fracPos ex_played = 1 / 2
   \<and> (\<exists>self'. SpeedShifter_Seek ex_played 0 SeekStart = Inr (0, None, self')
         \<and> fracPos self' = 1 / 2 \<and> leftoverBytes self' = 0 \<and> lookaheadBytes self' = 0
         \<and> Get (leftWindow self') = Inr [256 / 32767]
         \<and> Get (rightWindow self') = Inr [512 / 32767])
   \<and> fracPos ex_new = 0"
proof -
  have "(case SpeedShifter_Seek ex_played 0 SeekStart of
           Inr (pos, err, self') \<Rightarrow>
             pos = 0 \<and> err = None \<and> fracPos self' = 1 / 2 \<and> leftoverBytes self' = 0
             \<and> lookaheadBytes self' = 0 \<and> Get (leftWindow self') = Inr [256 / 32767]
             \<and> Get (rightWindow self') = Inr [512 / 32767]
         | Inl _ \<Rightarrow> False)"
    by code_simp
  then have "\<exists>self'. SpeedShifter_Seek ex_played 0 SeekStart = Inr (0, None, self')
         \<and> fracPos self' = 1 / 2 \<and> leftoverBytes self' = 0 \<and> lookaheadBytes self' = 0
         \<and> Get (leftWindow self') = Inr [256 / 32767]
         \<and> Get (rightWindow self') = Inr [512 / 32767]"
    by (auto split: sum.splits)
  moreover have "fracPos ex_played = 1 / 2" using ex_played_fields by simp
  moreover have "fracPos ex_new = 0" by (simp add: ex_new_def)
  ultimately show ?thesis by blast
qed

text \<open>
  Claim C2, as stated, fails. A zero-offset relative seek succeeds and resets nothing:
  on the example shifter after its \<open>Read\<close> it leaves \<open>fracPos = 1/2\<close> and both counters at
  4. And the reset of an absolute seek does not touch \<open>fracPos\<close>: sought back to the
  start, the same shifter has its counters at zero and \<open>fracPos\<close> still at \<open>1/2\<close>.
\<close>

theorem Seek_leaves_fracPos:
  "SpeedShifter_Seek ex_played 0 SeekCurrent = Inr (0, None, ex_played)
   \<and> fracPos ex_played = 1 / 2 \<and> leftoverBytes ex_played = 4 \<and> lookaheadBytes ex_played = 4
   \<and> SpeedShifter_Seek ex_played 0 SeekStart = Inr (0, None, ex_rewound)
   \<and> fracPos ex_rewound = 1 / 2 \<and> leftoverBytes ex_rewound = 0 \<and> lookaheadBytes ex_rewound = 0"
proof -
  have "SpeedShifter_Seek ex_played 0 SeekCurrent = Inr (0, None, ex_played)"
    by (simp add: SpeedShifter_Seek_def)
  moreover obtain self' where "SpeedShifter_Seek ex_played 0 SeekStart = Inr (0, None, self')"
    "fracPos self' = 1 / 2" "leftoverBytes self' = 0" "lookaheadBytes self' = 0"
    using Seek_after_Read_keeps_fracPos by blast
  moreover from this have "ex_rewound = self'" by (simp add: ex_rewound_def)
  ultimately show ?thesis using ex_played_fields by simp
qed

lemma NewSpeedShifter_initial_ok:
  "2 \<le> ws \<Longrightarrow>
     shifter_ok \<lparr>source = src, speed = sp, windowSize = ws, interpolator = f, fracPos = 0,
                 leftoverBytes = 0, lookaheadBytes = 0,
                 leftWindow = \<lparr>winSize = ws, wbuffer = replicate (nat (ws * 8)) 0,
                               startIndex = 0, endIndex = 0\<rparr>,
                 rightWindow = \<lparr>winSize = ws, wbuffer = replicate (nat (ws * 8)) 0,
                                startIndex = 0, endIndex = 0\<rparr>,
                 auxReadBuffer = []\<rparr>"
  by (simp add: shifter_ok_def)

text \<open>
  Claim C2, amended. The reset performed at construction and on every absolute seek
  (\<open>whence\<close> start or end, successful or not) clears both channel windows, re-primes each
  with \<open>windowSize/2 - 1\<close> zero-valued samples followed by one sample read from the source
  (normalized; zero if the source yields fewer than 4 bytes), and sets the leftover-bytes
  counter and the lookahead counter to zero. At construction \<open>fracPos\<close> is zero.
\<close>

theorem reset_primes_windows:
  "(2 \<le> ws \<and> ws mod 2 = 0 \<longrightarrow>
      (\<exists>s'. NewSpeedShifter src sp ws f = Inr s' \<and> primed src ws s' \<and> fracPos s' = 0))
   \<and> (whence \<noteq> SeekCurrent \<and> source self = AlsoSeeker st \<and> shifter_ok self \<longrightarrow>
      (\<exists>s'. SpeedShifter_Seek self offset whence
               = Inr (fst (stream_seek st offset whence),
                      fst (snd (stream_seek st offset whence)), s')
            \<and> primed (AlsoSeeker (snd (snd (stream_seek st offset whence)))) (windowSize self) s'))"
proof (intro conjI impI)
  assume a: "2 \<le> ws \<and> ws mod 2 = 0"
  let ?s0 = "\<lparr>source = src, speed = sp, windowSize = ws, interpolator = f, fracPos = 0,
                 leftoverBytes = 0, lookaheadBytes = 0,
                 leftWindow = \<lparr>winSize = ws, wbuffer = replicate (nat (ws * 8)) 0,
                               startIndex = 0, endIndex = 0\<rparr>,
                 rightWindow = \<lparr>winSize = ws, wbuffer = replicate (nat (ws * 8)) 0,
                                startIndex = 0, endIndex = 0\<rparr>,
                 auxReadBuffer = []\<rparr>"
  have ok: "shifter_ok ?s0" using a by (intro NewSpeedShifter_initial_ok) simp
  have n: "NewSpeedShifter src sp ws f = internalReset ?s0"
    using a by (simp add: NewSpeedShifter_def Let_def)
  obtain s' where r: "internalReset ?s0 = Inr s'" and p: "primed (source ?s0) (windowSize ?s0) s'"
    and f: "fracPos s' = fracPos ?s0"
    using internalReset_spec [OF ok] unfolding primed_def by blast
  show "\<exists>s'. NewSpeedShifter src sp ws f = Inr s' \<and> primed src ws s' \<and> fracPos s' = 0"
    using n r p f by simp
next
  assume a: "whence \<noteq> SeekCurrent \<and> source self = AlsoSeeker st \<and> shifter_ok self"
  obtain pos err st' where sk: "stream_seek st offset whence = (pos, err, st')"
    by (cases "stream_seek st offset whence") auto
  let ?s1 = "self\<lparr>source := AlsoSeeker st'\<rparr>"
  have ok1: "shifter_ok ?s1" using a by (simp add: shifter_ok_def)
  obtain s' where r: "internalReset ?s1 = Inr s'" and p: "primed (source ?s1) (windowSize ?s1) s'"
    using internalReset_spec [OF ok1] unfolding primed_def by blast
  have "SpeedShifter_Seek self offset whence = Inr (pos, err, s')"
    using a sk r by (simp add: SpeedShifter_Seek_def)
  then show "\<exists>s'. SpeedShifter_Seek self offset whence
               = Inr (fst (stream_seek st offset whence),
                      fst (snd (stream_seek st offset whence)), s')
            \<and> primed (AlsoSeeker (snd (snd (stream_seek st offset whence)))) (windowSize self) s'"
    using p sk by simp
qed

theorem reset_primes_windows_witness:
  "(\<exists>s'. NewSpeedShifter (AlsoSeeker \<lparr>sdata = ex_data, soff = 0, slimits = []\<rparr>) (1 / 2) 4
            ex_linear = Inr s'
       \<and> leftoverBytes s' = 0 \<and> lookaheadBytes s' = 0 \<and> fracPos s' = 0
       \<and> Get (leftWindow s') = Inr [0, 256 / 32767] \<and> Get (rightWindow s') = Inr [0, 512 / 32767]
       \<and> source s' = AlsoSeeker \<lparr>sdata = ex_data, soff = 4, slimits = []\<rparr>)
   \<and> (\<exists>s'. SpeedShifter_Seek ex_new 8 SeekStart = Inr (8, None, s')
       \<and> leftoverBytes s' = 0 \<and> lookaheadBytes s' = 0
       \<and> Get (leftWindow s') = Inr [1280 / 32767] \<and> Get (rightWindow s') = Inr [1536 / 32767]
       \<and> source s' = AlsoSeeker \<lparr>sdata = ex_data, soff = 12, slimits = []\<rparr>)"
proof -
  let ?st = "\<lparr>sdata = ex_data, soff = 4, slimits = []\<rparr>"
  have ok: "shifter_ok ex_new" by (simp add: shifter_ok_def ex_new_def)
  have src: "source ex_new = AlsoSeeker ?st" "windowSize ex_new = 2" by (simp_all add: ex_new_def)
  have wh: "SeekStart \<noteq> SeekCurrent"
    by (simp add: SeekStart_def SeekCurrent_def)
  have sk: "stream_seek ?st 8 SeekStart = (8, None, \<lparr>sdata = ex_data, soff = 8, slimits = []\<rparr>)"
    by (simp add: stream_seek_def SeekStart_def SeekCurrent_def SeekEnd_def)
  have rd: "reader_read (AlsoSeeker \<lparr>sdata = ex_data, soff = 0, slimits = []\<rparr>) 4
              = ([0, 1, 0, 2], None, AlsoSeeker \<lparr>sdata = ex_data, soff = 4, slimits = []\<rparr>)"
    "reader_read (AlsoSeeker \<lparr>sdata = ex_data, soff = 8, slimits = []\<rparr>) 4
              = ([0, 5, 0, 6], None, AlsoSeeker \<lparr>sdata = ex_data, soff = 12, slimits = []\<rparr>)"
    by (simp_all add: reader_read_def stream_read_def ex_data_def)
  have smp: "reset_sample [0, 1, 0, 2] = (256 / 32767, 512 / 32767)"
    "reset_sample [0, 5, 0, 6] = (1280 / 32767, 1536 / 32767)"
    by (simp_all add: reset_sample_def GetSampleAsF64_real_def GetSampleAsI16_def NormalizeF64_real_def)
  have q: "nat (go_quot 4 2 - 1) = Suc 0" "nat (go_quot 2 2 - 1) = 0"
    by (simp_all add: go_quot_def)
  show ?thesis
    using reset_primes_windows
        [of 4 "AlsoSeeker \<lparr>sdata = ex_data, soff = 0, slimits = []\<rparr>" "1 / 2"
            ex_linear SeekStart ex_new ?st 8]
      ok src wh
    by (auto simp: primed_def sk rd smp q)
qed

text \<open>
  Claim C3, as stated, fails at the zero-offset relative seek: the code returns position
  0 at once, without calling the source's seek. The example shifter has served 4 bytes
  and its source stands at offset 12 (the source's own seek would report 12);
  \<open>Seek(0, io.SeekCurrent)\<close> reports 0 and leaves the shifter as it is.
\<close>

theorem Seek_current_zero_returns_zero:
  "SpeedShifter_Seek ex_played 0 SeekCurrent = Inr (0, None, ex_played)
   \<and> source ex_played = AlsoSeeker \<lparr>sdata = ex_data, soff = 12, slimits = []\<rparr>
   \<and> stream_seek \<lparr>sdata = ex_data, soff = 12, slimits = []\<rparr> 0 SeekCurrent
         = (12, None, \<lparr>sdata = ex_data, soff = 12, slimits = []\<rparr>)
   \<and> fst (stream_seek \<lparr>sdata = ex_data, soff = 12, slimits = []\<rparr> 0 SeekCurrent) \<noteq> 0"
proof -
  have "SpeedShifter_Seek ex_played 0 SeekCurrent = Inr (0, None, ex_played)"
    by (simp add: SpeedShifter_Seek_def)
  moreover have "source ex_played = AlsoSeeker \<lparr>sdata = ex_data, soff = 12, slimits = []\<rparr>"
    using ex_played_fields by simp
  moreover have "stream_seek \<lparr>sdata = ex_data, soff = 12, slimits = []\<rparr> 0 SeekCurrent
         = (12, None, \<lparr>sdata = ex_data, soff = 12, slimits = []\<rparr>)"
    by (simp add: stream_seek_def SeekCurrent_def SeekStart_def)
  ultimately show ?thesis by simp
qed

text \<open>
  Claim C3, amended. \<open>Seek(offset, whence)\<close> with \<open>whence = current\<close> and \<open>offset \<noteq> 0\<close>
  panics; with \<open>whence = current\<close> and \<open>offset = 0\<close> it returns position 0 and no error,
  and touches neither the source nor the shifter; with any other \<open>whence\<close> (start, end) on
  a source that is a seeker it calls the source's seek, resets the shifter (which reads
  the source once more) and returns the source's position and error; on a source that is
  no seeker it panics.
\<close>

theorem SpeedShifter_Seek_contract:
  "(whence = SeekCurrent \<and> offset \<noteq> 0 \<longrightarrow>
      SpeedShifter_Seek self offset whence
        = Inl (Panic ''can't use relative seeks on a SpeedShifter (due to lookaheads)''))
   \<and> (whence = SeekCurrent \<and> offset = 0 \<longrightarrow>
      SpeedShifter_Seek self offset whence = Inr (0, None, self))
   \<and> (whence \<noteq> SeekCurrent \<and> source self = AlsoSeeker st \<and> shifter_ok self \<longrightarrow>
      (\<exists>self'. SpeedShifter_Seek self offset whence
                 = Inr (fst (stream_seek st offset whence),
                        fst (snd (stream_seek st offset whence)), self')
             \<and> source self' =
                 AlsoSeeker (snd (snd (stream_read (snd (snd (stream_seek st offset whence))) 4)))))
   \<and> (whence \<noteq> SeekCurrent \<and> source self = OnlyReader st \<longrightarrow>
      SpeedShifter_Seek self offset whence = Inl TypeAssertion)"
proof -
  have delegated: "\<exists>self'. SpeedShifter_Seek self offset whence
                 = Inr (fst (stream_seek st offset whence),
                        fst (snd (stream_seek st offset whence)), self')
             \<and> source self' =
                 AlsoSeeker (snd (snd (stream_read (snd (snd (stream_seek st offset whence))) 4)))"
    if a: "whence \<noteq> SeekCurrent" "source self = AlsoSeeker st" "shifter_ok self"
  proof -
    obtain pos err st' where sk: "stream_seek st offset whence = (pos, err, st')"
      by (cases "stream_seek st offset whence") auto
    let ?s1 = "self\<lparr>source := AlsoSeeker st'\<rparr>"
    have ok1: "shifter_ok ?s1" using a(3) by (simp add: shifter_ok_def)
    obtain s' where r: "internalReset ?s1 = Inr s'"
      and src: "source s' = snd (snd (reader_read (source ?s1) 4))"
      using internalReset_spec [OF ok1] by blast
    have "snd (snd (reader_read (source ?s1) 4)) = AlsoSeeker (snd (snd (stream_read st' 4)))"
      by (simp add: reader_read_def split: prod.splits)
    then show ?thesis
      using a(1,2) sk r src by (simp add: SpeedShifter_Seek_def)
  qed
  show ?thesis
    using delegated by (auto simp: SpeedShifter_Seek_def)
qed

theorem SpeedShifter_Seek_contract_witness:
  "SpeedShifter_Seek ex_new 4 SeekCurrent
     = Inl (Panic ''can't use relative seeks on a SpeedShifter (due to lookaheads)'')
   \<and> SpeedShifter_Seek ex_new 0 SeekCurrent = Inr (0, None, ex_new)
   \<and> (\<exists>self'. SpeedShifter_Seek ex_new 8 SeekStart = Inr (8, None, self')
         \<and> source self' = AlsoSeeker \<lparr>sdata = ex_data, soff = 12, slimits = []\<rparr>)
   \<and> (\<exists>self'. SpeedShifter_Seek ex_new (- 4) SeekEnd = Inr (12, None, self')
         \<and> source self' = AlsoSeeker \<lparr>sdata = ex_data, soff = 16, slimits = []\<rparr>)
   \<and> SpeedShifter_Seek (ex_new\<lparr>source := OnlyReader \<lparr>sdata = ex_data, soff = 4, slimits = []\<rparr>\<rparr>)
         0 SeekStart = Inl TypeAssertion"
proof -
  let ?st = "\<lparr>sdata = ex_data, soff = 4, slimits = []\<rparr>"
  have ok: "shifter_ok ex_new" by (simp add: shifter_ok_def ex_new_def)
  have src: "source ex_new = AlsoSeeker ?st" by (simp add: ex_new_def)
  have wh: "SeekStart \<noteq> SeekCurrent" "SeekEnd \<noteq> SeekCurrent"
    by (simp_all add: SeekStart_def SeekCurrent_def SeekEnd_def)
  have sk: "stream_seek ?st 8 SeekStart = (8, None, ?st\<lparr>soff := 8\<rparr>)"
    "stream_seek ?st (- 4) SeekEnd = (12, None, ?st\<lparr>soff := 12\<rparr>)"
    by (simp_all add: stream_seek_def SeekStart_def SeekCurrent_def SeekEnd_def ex_data_def)
  have rd: "stream_read \<lparr>sdata = ex_data, soff = 8, slimits = []\<rparr> 4
              = ([0, 5, 0, 6], None, \<lparr>sdata = ex_data, soff = 12, slimits = []\<rparr>)"
    "stream_read \<lparr>sdata = ex_data, soff = 12, slimits = []\<rparr> 4
              = ([0, 7, 0, 8], None, \<lparr>sdata = ex_data, soff = 16, slimits = []\<rparr>)"
    by (simp_all add: stream_read_def ex_data_def)
  show ?thesis
    using SpeedShifter_Seek_contract [of SeekCurrent 4 ex_new ?st]
      SpeedShifter_Seek_contract [of SeekCurrent 0 ex_new ?st]
      SpeedShifter_Seek_contract [of SeekStart 8 ex_new ?st]
      SpeedShifter_Seek_contract [of SeekEnd "- 4" ex_new ?st]
      SpeedShifter_Seek_contract [of SeekStart 0
          "ex_new\<lparr>source := OnlyReader ?st\<rparr>" ?st]
      ok src wh
    by (simp add: sk rd)
qed

end
